theory Spec2Isabelle
  imports Complex_Main "HOL-Library.Signed_Division"
begin

section \<open>Vectors and matrices\<close>

text \<open>
  The source works with vectors of doubles, vectors of ints and integer 3 by 3 matrices.
  A double is represented by the real number it denotes, and a C++ int by an unbounded
  integer.  The two double operations whose rounding decides a result, the addition of
  weights in \<open>reduceKmesh\<close> and the product \<open>c[k]*S[k]\<close> in \<open>checkFFTbox\<close>, are arguments of
  the functions that perform them; the products of an integer matrix with a vector, which
  are only passed on to the distance function, are taken exactly.  A matrix is the triple
  of its rows.
\<close>

type_synonym vector3 = "real \<times> real \<times> real"

type_synonym vector3i = "int \<times> int \<times> int"

type_synonym matrix3i = "vector3i \<times> vector3i \<times> vector3i"

text \<open>The distance function \<open>circDistanceSquared\<close> is declared outside \<open>Symmetries.cpp\<close>;
  every operation below takes it as its first argument.\<close>

type_synonym distance = "vector3 \<Rightarrow> vector3 \<Rightarrow> real"

definition identity3 :: matrix3i where
  "identity3 = ((1, 0, 0), (0, 1, 0), (0, 0, 1))"

text \<open>\<open>~m\<close>: the transpose.\<close>

fun transpose3 :: "matrix3i \<Rightarrow> matrix3i" where
  "transpose3 ((a, b, c), (d, e, f), (g, h, i)) = ((a, d, g), (b, e, h), (c, f, i))"

text \<open>\<open>m * v\<close> for an integer matrix and a real vector.\<close>

fun mulMV :: "matrix3i \<Rightarrow> vector3 \<Rightarrow> vector3" where
  "mulMV ((a, b, c), (d, e, f), (g, h, i)) (x, y, z) =
     (of_int a * x + of_int b * y + of_int c * z,
      of_int d * x + of_int e * y + of_int f * z,
      of_int g * x + of_int h * y + of_int i * z)"

text \<open>\<open>m * v\<close> for an integer matrix and an integer vector.\<close>

fun mulMVi :: "matrix3i \<Rightarrow> vector3i \<Rightarrow> vector3i" where
  "mulMVi ((a, b, c), (d, e, f), (g, h, i)) (x, y, z) =
     (a * x + b * y + c * z, d * x + e * y + f * z, g * x + h * y + i * z)"

text \<open>\<open>s * v\<close> for an integer scalar and a real vector.\<close>

fun scaleV :: "int \<Rightarrow> vector3 \<Rightarrow> vector3" where
  "scaleV s (x, y, z) = (of_int s * x, of_int s * y, of_int s * z)"

fun subV :: "vector3 \<Rightarrow> vector3 \<Rightarrow> vector3" where
  "subV (x, y, z) (x', y', z') = (x - x', y - y', z - z')"

fun addV :: "vector3 \<Rightarrow> vector3 \<Rightarrow> vector3" where
  "addV (x, y, z) (x', y', z') = (x + x', y + y', z + z')"

fun addVi :: "vector3i \<Rightarrow> vector3i \<Rightarrow> vector3i" where
  "addVi (x, y, z) (x', y', z') = (x + x', y + y', z + z')"

text \<open>\<open>0.5 * (a + b)\<close>\<close>

fun midpoint :: "vector3 \<Rightarrow> vector3 \<Rightarrow> vector3" where
  "midpoint (x, y, z) (x', y', z') = ((1/2) * (x + x'), (1/2) * (y + y'), (1/2) * (z + z'))"

definition Diag :: "vector3i \<Rightarrow> matrix3i" where
  "Diag S = (case S of (s0, s1, s2) \<Rightarrow> ((s0, 0, 0), (0, s1, 0), (0, 0, s2)))"

fun row3 :: "matrix3i \<Rightarrow> nat \<Rightarrow> vector3i" where
  "row3 (r0, r1, r2) i = (if i = 0 then r0 else if i = 1 then r1 else r2)"

fun comp3 :: "vector3i \<Rightarrow> nat \<Rightarrow> int" where
  "comp3 (x, y, z) i = (if i = 0 then x else if i = 1 then y else z)"

text \<open>\<open>m(i,j)\<close>\<close>

definition entry :: "matrix3i \<Rightarrow> nat \<Rightarrow> nat \<Rightarrow> int" where
  "entry m i j = comp3 (row3 m i) j"

text \<open>The product of two integer matrices.\<close>

definition mulMM :: "matrix3i \<Rightarrow> matrix3i \<Rightarrow> matrix3i" where
  "mulMM a b =
     (let t = transpose3 b
      in (mulMVi t (row3 a 0), mulMVi t (row3 a 1), mulMVi t (row3 a 2)))"

section \<open>The symmetry object and its surroundings\<close>

datatype SymmetryMode = SymmetriesNone | SymmetriesAutomatic | SymmetriesManual

record QuantumNumber =
  k :: vector3
  weight :: real

record Symmetries =
  mode :: SymmetryMode
  sym :: "matrix3i list"
  symMesh :: "matrix3i list"
  kpointInvertList :: "int list"
  symmIndex :: "int list"
  shouldMoveAtoms :: bool
  symmThresholdSq :: real

text \<open>The fields of \<open>SpeciesInfo\<close>, \<open>GridInfo\<close>, \<open>IonInfo\<close> and \<open>CoulombParams\<close> that the
  functions below read or write through the pointer \<open>e\<close>.\<close>

record SpeciesInfo =
  atpos :: "vector3 list"
  initialMagneticMoments :: "real list"

record Everything =
  gInfo_S :: vector3i
  iInfo_species :: "SpeciesInfo list"
  coulombParams_embed :: bool
  coulombParams_embedCenter :: vector3

text \<open>Every \<open>die\<close> of the functions below.\<close>

datatype error =
    FFTboxNotCommensurate
  | EmbedCenterNotInvariant
  | NoEmbedGridPoint
  | SymmetriesDisagreeWithPositions
  | BetterSymmetryCenter

section \<open>\<open>reduceKmesh\<close>\<close>

text \<open>The test of lines 95-100: some \<open>m\<close> of \<open>sym\<close> has
  \<open>circDistanceSquared((~m)*i->k, invert*j->k) < symmThresholdSq\<close>.\<close>

definition kFound :: "distance \<Rightarrow> real \<Rightarrow> matrix3i list \<Rightarrow> int \<Rightarrow> QuantumNumber \<Rightarrow> QuantumNumber \<Rightarrow> bool" where
  "kFound cds thrSq ms invert qi qj =
     list_ex (\<lambda>m. cds (mulMV (transpose3 m) (k qi)) (scaleV invert (k qj)) < thrSq) ms"

text \<open>The inner \<open>while(j != qlist.end())\<close> loop for a fixed \<open>i\<close>: the state is the element
  \<open>i\<close>, the part of the list after \<open>i\<close> and the flag \<open>usedInversion\<close>.  The weights are doubles:
  \<open>wadd\<close> is the double addition of \<open>i->weight += j->weight\<close>, which rounds its result; it
  is an argument, and nothing is assumed of it.\<close>

fun gobble :: "(real \<Rightarrow> real \<Rightarrow> real) \<Rightarrow> distance \<Rightarrow> real \<Rightarrow> matrix3i list \<Rightarrow> int \<Rightarrow> QuantumNumber \<Rightarrow> QuantumNumber list \<Rightarrow> bool
    \<Rightarrow> QuantumNumber \<times> QuantumNumber list \<times> bool" where
  "gobble wadd cds thrSq ms invert qi [] used = (qi, [], used)"
| "gobble wadd cds thrSq ms invert qi (qj # rest) used =
     (if kFound cds thrSq ms invert qi qj
      then gobble wadd cds thrSq ms invert (qi\<lparr>weight := wadd (weight qi) (weight qj)\<rparr>) rest (used \<or> invert < 0)
      else (case gobble wadd cds thrSq ms invert qi rest used of
              (qi', rest', used') \<Rightarrow> (qi', qj # rest', used')))"

lemma gobble_length:
  "gobble wadd cds thrSq ms invert qi qs used = (qi', qs', used') \<Longrightarrow> length qs' \<le> length qs"
proof (induction qs arbitrary: qi used qi' qs' used')
  case Nil
  then show ?case by simp
next
  case (Cons qj rest)
  show ?case
  proof (cases "kFound cds thrSq ms invert qi qj")
    case True
    with Cons.prems have "gobble wadd cds thrSq ms invert (qi\<lparr>weight := wadd (weight qi) (weight qj)\<rparr>) rest (used \<or> invert < 0) = (qi', qs', used')"
      by simp
    from Cons.IH [OF this] show ?thesis by simp
  next
    case False
    with Cons.prems obtain r where r: "gobble wadd cds thrSq ms invert qi rest used = (qi', r, used')" and "qs' = qj # r"
      by (auto split: prod.splits)
    from Cons.IH [OF r] \<open>qs' = qj # r\<close> show ?thesis by simp
  qed
qed

text \<open>The outer \<open>for(Iter i=qlist.begin(); i!=qlist.end(); i++)\<close> loop of one pass.\<close>

function reducePass :: "(real \<Rightarrow> real \<Rightarrow> real) \<Rightarrow> distance \<Rightarrow> real \<Rightarrow> matrix3i list \<Rightarrow> int \<Rightarrow> QuantumNumber list \<Rightarrow> bool
    \<Rightarrow> QuantumNumber list \<times> bool" where
  "reducePass wadd cds thrSq ms invert [] used = ([], used)"
| "reducePass wadd cds thrSq ms invert (qi # rest) used =
     (case gobble wadd cds thrSq ms invert qi rest used of
        (qi', rest', used') \<Rightarrow>
          (case reducePass wadd cds thrSq ms invert rest' used' of
             (out, used'') \<Rightarrow> (qi' # out, used'')))"
  by pat_completeness auto
termination
proof (relation "measure (\<lambda>(wadd, cds, thrSq, ms, invert, qs, used). length qs)", goal_cases)
  case 1
  show ?case by simp
next
  case (2 wadd cds thrSq ms invert qi rest used x1 x2 rest' used')
  then have "gobble wadd cds thrSq ms invert qi rest used = (x1, rest', used')"
    by simp
  from gobble_length [OF this] show ?case by simp
qed

text \<open>\<open>reduceKmesh\<close>: returns the reduced list and the object with \<open>kpointInvertList\<close> set
  (the source writes it through a cast of \<open>this\<close>).\<close>

definition reduceKmesh :: "(real \<Rightarrow> real \<Rightarrow> real) \<Rightarrow> distance \<Rightarrow> Symmetries \<Rightarrow> QuantumNumber list \<Rightarrow> QuantumNumber list \<times> Symmetries" where
  "reduceKmesh wadd cds this qnums =
     (if mode this = SymmetriesNone then (qnums, this)
      else
        (case foldl (\<lambda>(qlist, used) invert. reducePass wadd cds (symmThresholdSq this) (sym this) invert qlist used)
                (qnums, False) [1, -1] of
           (qlist, usedInversion) \<Rightarrow>
             (qlist, this\<lparr>kpointInvertList := (if usedInversion then [1, -1] else [1])\<rparr>)))"

text \<open>\<open>getKpointInvertList\<close>\<close>

definition getKpointInvertList :: "Symmetries \<Rightarrow> int list" where
  "getKpointInvertList this = kpointInvertList this"

section \<open>\<open>basisReduce\<close> and \<open>checkSymmetries\<close>\<close>

text \<open>The test of lines 281-283 for atoms \<open>a1\<close>, \<open>a2\<close> of one species.\<close>

definition imageAt :: "distance \<Rightarrow> real \<Rightarrow> SpeciesInfo \<Rightarrow> vector3 \<Rightarrow> nat \<Rightarrow> nat \<Rightarrow> bool" where
  "imageAt cds thrSq sp mapped_pos1 a1 a2 \<longleftrightarrow>
     cds mapped_pos1 (atpos sp ! a2) < thrSq \<and>
     (length (initialMagneticMoments sp) = 0 \<or>
      initialMagneticMoments sp ! a1 = initialMagneticMoments sp ! a2)"

text \<open>The body of the loop over lattice symmetries: \<open>symmetric\<close> after the species loop.\<close>

definition basisSymmetric :: "distance \<Rightarrow> real \<Rightarrow> SpeciesInfo list \<Rightarrow> vector3 \<Rightarrow> matrix3i \<Rightarrow> bool" where
  "basisSymmetric cds thrSq species offset m =
     list_all (\<lambda>sp.
       list_all (\<lambda>a1.
         list_ex (imageAt cds thrSq sp (addV offset (mulMV m (subV (atpos sp ! a1) offset))) a1)
           [0 ..< length (atpos sp)])
         [0 ..< length (atpos sp)])
       species"

definition basisReduce :: "distance \<Rightarrow> Symmetries \<Rightarrow> Everything \<Rightarrow> matrix3i list \<Rightarrow> vector3 \<Rightarrow> matrix3i list" where
  "basisReduce cds this e symLattice offset =
     filter (basisSymmetric cds (symmThresholdSq this) (iInfo_species e) offset) symLattice"

definition checkSymmetries :: "distance \<Rightarrow> Symmetries \<Rightarrow> Everything \<Rightarrow> error + unit" where
  "checkSymmetries cds this e =
     (if list_all (\<lambda>m.
           list_all (\<lambda>sp.
             list_all (\<lambda>pos1.
               list_ex (\<lambda>pos2. cds (mulMV m pos1) pos2 < symmThresholdSq this) (atpos sp))
               (atpos sp))
             (iInfo_species e))
           (sym this)
      then Inr () else Inl SymmetriesDisagreeWithPositions)"

section \<open>\<open>sortSymmetries\<close> and \<open>calcSymmetries\<close>\<close>

text \<open>\<open>sortSymmetries\<close>: the loop over \<open>i = 1, ..., sym.size() - 1\<close> that swaps an identity
  found at \<open>i\<close> with the first matrix.\<close>

definition sortSymmetries :: "Symmetries \<Rightarrow> Symmetries" where
  "sortSymmetries this =
     this\<lparr>sym := foldl (\<lambda>s i. if s ! i = identity3 then s[0 := s ! i, i := s ! 0] else s)
                     (sym this) [1 ..< length (sym this)]\<rparr>"

text \<open>The candidate centres of lines 239-246: every atom position, each followed by its
  midpoints with the earlier atoms of the species.\<close>

definition rCenterCandidates :: "Everything \<Rightarrow> vector3 list" where
  "rCenterCandidates e =
     concat (map (\<lambda>sp.
       concat (map (\<lambda>n1. atpos sp ! n1 # map (\<lambda>n2. midpoint (atpos sp ! n1) (atpos sp ! n2)) [0 ..< n1])
                 [0 ..< length (atpos sp)]))
       (iInfo_species e))"

text \<open>The loop of lines 249-255; the state is \<open>(rCenter, sym)\<close>.\<close>

definition betterCenter :: "distance \<Rightarrow> Symmetries \<Rightarrow> Everything \<Rightarrow> matrix3i list
    \<Rightarrow> vector3 \<times> matrix3i list \<Rightarrow> vector3 list \<Rightarrow> vector3 \<times> matrix3i list" where
  "betterCenter cds this e symLattice start candidates =
     foldl (\<lambda>(rCenter, s) rProposed.
              let symTemp = basisReduce cds this e symLattice rProposed
              in if length symTemp > length s then (rProposed, symTemp) else (rCenter, s))
       start candidates"

text \<open>\<open>calcSymmetries\<close>.  The lattice symmetries come from \<open>getSymmetries\<close>, which is outside
  \<open>Symmetries.cpp\<close>, and are an argument.  The result is the error the process died
  with, if any, and the two objects as they are at that moment.\<close>

definition calcSymmetries :: "distance \<Rightarrow> matrix3i list \<Rightarrow> Symmetries \<Rightarrow> Everything
    \<Rightarrow> error option \<times> Symmetries \<times> Everything" where
  "calcSymmetries cds symLattice this e =
     (let this1 = sortSymmetries (this\<lparr>sym := basisReduce cds this e symLattice (0, 0, 0)\<rparr>)
      in if shouldMoveAtoms this1
         then
           (let origSymSize = length (sym this1);
                (rCenter, s) = betterCenter cds this1 e symLattice ((0, 0, 0), sym this1) (rCenterCandidates e);
                this2 = this1\<lparr>sym := s\<rparr>
            in if length s > origSymSize
               then (Some BetterSymmetryCenter, this2,
                     e\<lparr>iInfo_species :=
                         map (\<lambda>sp. sp\<lparr>atpos := map (\<lambda>pos. subV pos rCenter) (atpos sp)\<rparr>) (iInfo_species e)\<rparr>)
               else (None, this2, e))
         else (None, this1, e))"

section \<open>\<open>checkFFTbox\<close>\<close>

text \<open>Lines 386-392 for one row: C++ \<open>%\<close> and \<open>/\<close> truncate towards zero.\<close>

fun divideRow :: "vector3i \<Rightarrow> vector3i \<Rightarrow> error + vector3i" where
  "divideRow (a, b, c) (s0, s1, s2) =
     (if a smod s0 = 0
      then if b smod s1 = 0
           then if c smod s2 = 0
                then Inr (a sdiv s0, b sdiv s1, c sdiv s2)
                else Inl FFTboxNotCommensurate
           else Inl FFTboxNotCommensurate
      else Inl FFTboxNotCommensurate)"

definition meshMatrix :: "vector3i \<Rightarrow> matrix3i \<Rightarrow> error + matrix3i" where
  "meshMatrix S m =
     (case mulMM (Diag S) m of
        (r0, r1, r2) \<Rightarrow>
          (case divideRow r0 S of Inl err \<Rightarrow> Inl err | Inr q0 \<Rightarrow>
            (case divideRow r1 S of Inl err \<Rightarrow> Inl err | Inr q1 \<Rightarrow>
              (case divideRow r2 S of Inl err \<Rightarrow> Inl err | Inr q2 \<Rightarrow> Inr (q0, q1, q2)))))"

fun meshMatrices :: "vector3i \<Rightarrow> matrix3i list \<Rightarrow> error + matrix3i list" where
  "meshMatrices S [] = Inr []"
| "meshMatrices S (m # ms) =
     (case meshMatrix S m of Inl err \<Rightarrow> Inl err | Inr x \<Rightarrow>
       (case meshMatrices S ms of Inl err \<Rightarrow> Inl err | Inr xs \<Rightarrow> Inr (x # xs)))"

text \<open>C's \<open>round\<close>: to the nearest integer, halves away from zero.\<close>

definition cround :: "real \<Rightarrow> int" where
  "cround x = (if 0 \<le> x then \<lfloor>x + 1/2\<rfloor> else - \<lfloor>- x + 1/2\<rfloor>)"

text \<open>The points visited by the loops over \<open>dv\<close> for one \<open>d\<close>, in the order visited.  The
  innermost loop starts at \<open>-d1\<close> and steps by \<open>2*max(1,d1)\<close>: it visits \<open>0\<close> when \<open>d1\<close> is
  \<open>0\<close>, and \<open>-d1\<close> then \<open>d1\<close> otherwise.\<close>

definition shell :: "int \<Rightarrow> vector3i list" where
  "shell d =
     concat (map (\<lambda>dv0.
       let d0 = d - \<bar>dv0\<bar>
       in concat (map (\<lambda>dv1.
            let d1 = d0 - \<bar>dv1\<bar>
            in map (\<lambda>dv2. (dv0, dv1, dv2)) (if d1 = 0 then [0] else [- d1, d1]))
            [- d0 .. d0]))
       [- d .. d])"

text \<open>\<open>x = invDiagS * iv\<close> with \<open>invDiagS = inv(Diag(S))\<close>: the point of coordinates
  \<open>iv[k] / S[k]\<close>.  The inverse and the matrix product are declared outside \<open>Symmetries.cpp\<close>;
  the quotient is taken exactly.\<close>

fun gridPoint :: "vector3i \<Rightarrow> vector3i \<Rightarrow> vector3" where
  "gridPoint (s0, s1, s2) (i0, i1, i2) = (of_int i0 / of_int s0, of_int i1 / of_int s1, of_int i2 / of_int s2)"

text \<open>\<open>valid\<close> after the loop of lines 419-423.\<close>

definition invariantPoint :: "distance \<Rightarrow> real \<Rightarrow> matrix3i list \<Rightarrow> vector3 \<Rightarrow> bool" where
  "invariantPoint cds thrSq ms x = list_all (\<lambda>m. \<not> cds x (mulMV m x) > thrSq) ms"

text \<open>The search of lines 410-430 over the given values of \<open>d\<close>: the first valid point in the
  order visited, if any.\<close>

fun searchShells :: "(vector3i \<Rightarrow> bool) \<Rightarrow> int list \<Rightarrow> vector3i option" where
  "searchShells valid [] = None"
| "searchShells valid (d # ds) =
     (case find valid (shell d) of Some dv \<Rightarrow> Some dv | None \<Rightarrow> searchShells valid ds)"

text \<open>\<open>iv0[k] = round(c[k]*S[k])\<close>: the product is taken in doubles; \<open>dmul\<close> is the double
  multiplication, an argument of which nothing is assumed.\<close>

definition iv0_of :: "(real \<Rightarrow> real \<Rightarrow> real) \<Rightarrow> vector3i \<Rightarrow> vector3 \<Rightarrow> vector3i" where
  "iv0_of dmul S c = (case (S, c) of ((s0, s1, s2), (c0, c1, c2)) \<Rightarrow>
     (cround (dmul c0 (of_int s0)), cround (dmul c1 (of_int s1)), cround (dmul c2 (of_int s2))))"

definition dMax :: "vector3i \<Rightarrow> int" where
  "dMax S = (case S of (s0, s1, s2) \<Rightarrow> (s0 + s1 + s2) sdiv 2 + 1)"

definition checkFFTbox :: "(real \<Rightarrow> real \<Rightarrow> real) \<Rightarrow> distance \<Rightarrow> Symmetries \<Rightarrow> Everything \<Rightarrow> error + Symmetries \<times> Everything" where
  "checkFFTbox dmul cds this e =
     (case meshMatrices (gInfo_S e) (sym this) of
        Inl err \<Rightarrow> Inl err
      | Inr mesh \<Rightarrow>
          (let this' = this\<lparr>symMesh := mesh\<rparr>;
               S = gInfo_S e;
               c = coulombParams_embedCenter e
           in if coulombParams_embed e
              then if list_ex (\<lambda>m. cds c (mulMV m c) > symmThresholdSq this) (sym this)
                   then Inl EmbedCenterNotInvariant
                   else (case searchShells
                                (\<lambda>dv. invariantPoint cds (symmThresholdSq this) (sym this)
                                         (gridPoint S (addVi (iv0_of dmul S c) dv)))
                                [0 .. dMax S] of
                           None \<Rightarrow> Inl NoEmbedGridPoint
                         | Some dv \<Rightarrow>
                             Inr (this', e\<lparr>coulombParams_embedCenter := gridPoint S (addVi (iv0_of dmul S c) dv)\<rparr>))
              else Inr (this', e)))"

section \<open>\<open>initSymmIndex\<close>\<close>

text \<open>Modelled from the spec: the flat-index mapping of the grid collaborator, which is
  outside \<open>Symmetries.cpp\<close>.  \<open>fullRindex\<close> is the row-major index of an in-range point;
  \<open>fullGindex\<close> first wraps negative coordinates by one period; \<open>nr\<close> is the point count.\<close>

fun fullRindex :: "vector3i \<Rightarrow> vector3i \<Rightarrow> int" where
  "fullRindex (s0, s1, s2) (r0, r1, r2) = r2 + s2 * (r1 + s1 * r0)"

fun fullGindex :: "vector3i \<Rightarrow> vector3i \<Rightarrow> int" where
  "fullGindex (s0, s1, s2) (g0, g1, g2) =
     fullRindex (s0, s1, s2)
       (if g0 < 0 then g0 + s0 else g0, if g1 < 0 then g1 + s1 else g1, if g2 < 0 then g2 + s2 else g2)"

definition gInfo_nr :: "vector3i \<Rightarrow> nat" where
  "gInfo_nr S = (case S of (s0, s1, s2) \<Rightarrow> nat (s0 * s1 * s2))"

text \<open>\<open>rNew[i] = rNew[i] % gInfo.S[i]\<close>, with C++ remainder.\<close>

fun projectIntoRange :: "vector3i \<Rightarrow> vector3i \<Rightarrow> vector3i" where
  "projectIntoRange (s0, s1, s2) (r0, r1, r2) = (r0 smod s0, r1 smod s1, r2 smod s2)"

text \<open>\<open>index2\<close> for the matrix \<open>m\<close> and the point \<open>r\<close>.\<close>

definition imageIndex :: "vector3i \<Rightarrow> matrix3i \<Rightarrow> vector3i \<Rightarrow> int" where
  "imageIndex S m r = fullGindex S (projectIntoRange S (mulMVi m r))"

text \<open>The loop over \<open>symMesh\<close> for one point: the state is \<open>(symmIndexVec, done)\<close>.\<close>

definition markImage :: "vector3i \<Rightarrow> vector3i \<Rightarrow> int list \<times> bool list \<Rightarrow> matrix3i \<Rightarrow> int list \<times> bool list" where
  "markImage S r st m =
     (case st of (symmIndexVec, done) \<Rightarrow>
        (let index2 = imageIndex S m r
         in (symmIndexVec @ [index2], done[nat index2 := True])))"

text \<open>The body of the three loops over \<open>r\<close>.\<close>

definition visitPoint :: "vector3i \<Rightarrow> matrix3i list \<Rightarrow> int list \<times> bool list \<Rightarrow> vector3i \<Rightarrow> int list \<times> bool list" where
  "visitPoint S mesh st r =
     (if \<not> snd st ! nat (fullRindex S r) then foldl (markImage S r) st mesh else st)"

text \<open>The points \<open>r\<close> in the order of the three loops.\<close>

definition gridPoints :: "vector3i \<Rightarrow> vector3i list" where
  "gridPoints S =
     (case S of (s0, s1, s2) \<Rightarrow>
        concat (map (\<lambda>r0. concat (map (\<lambda>r1. map (\<lambda>r2. (r0, r1, r2)) [0 .. s2 - 1]) [0 .. s1 - 1])) [0 .. s0 - 1]))"

definition initSymmIndex :: "Symmetries \<Rightarrow> Everything \<Rightarrow> Symmetries" where
  "initSymmIndex this e =
     (if length (sym this) = 1 then this
      else this\<lparr>symmIndex :=
             fst (foldl (visitPoint (gInfo_S e) (symMesh this))
                    ([], replicate (gInfo_nr (gInfo_S e)) False) (gridPoints (gInfo_S e)))\<rparr>)"

section \<open>Notions used to state the properties\<close>


text \<open>No element of the list is found equivalent to an earlier one, for the given
  \<open>invert\<close>: the condition under which a pass has nothing to merge.\<close>

definition noPairFound :: "distance \<Rightarrow> real \<Rightarrow> matrix3i list \<Rightarrow> int \<Rightarrow> QuantumNumber list \<Rightarrow> bool" where
  "noPairFound cds thrSq ms invert qs = sorted_wrt (\<lambda>qi qj. \<not> kFound cds thrSq ms invert qi qj) qs"

text \<open>Following the spec's words: the grid-space matrix with entry \<open>(i,j)\<close> equal to
  \<open>S[i] * m(i,j) / S[j]\<close>, and the condition that every \<open>S[i] * m(i,j)\<close> is exactly divisible
  by \<open>S[j]\<close>.\<close>

definition gridSpaceMatrix :: "vector3i \<Rightarrow> matrix3i \<Rightarrow> matrix3i" where
  "gridSpaceMatrix S m =
     (let q = (\<lambda>i j. (comp3 S i * entry m i j) div comp3 S j)
      in ((q 0 0, q 0 1, q 0 2), (q 1 0, q 1 1, q 1 2), (q 2 0, q 2 1, q 2 2)))"

definition commensurate :: "vector3i \<Rightarrow> matrix3i \<Rightarrow> bool" where
  "commensurate S m =
     list_all (\<lambda>i. list_all (\<lambda>j. comp3 S j dvd comp3 S i * entry m i j) [0, 1, 2]) [0, 1, 2]"

fun manhattan :: "vector3i \<Rightarrow> int" where
  "manhattan (x, y, z) = \<bar>x\<bar> + \<bar>y\<bar> + \<bar>z\<bar>"

fun inRange :: "vector3i \<Rightarrow> vector3i \<Rightarrow> bool" where
  "inRange (s0, s1, s2) (r0, r1, r2) \<longleftrightarrow> 0 \<le> r0 \<and> r0 < s0 \<and> 0 \<le> r1 \<and> r1 < s1 \<and> 0 \<le> r2 \<and> r2 < s2"

text \<open>The orbit seeds: the points at which the loop finds \<open>done[index]\<close> false, in the order
  visited.  The second component is the state of the loop itself.\<close>

definition visitSeed :: "vector3i \<Rightarrow> matrix3i list \<Rightarrow> vector3i list \<times> int list \<times> bool list \<Rightarrow> vector3i
    \<Rightarrow> vector3i list \<times> int list \<times> bool list" where
  "visitSeed S mesh sst r =
     (case sst of (seeds, st) \<Rightarrow>
        (if \<not> snd st ! nat (fullRindex S r) then seeds @ [r] else seeds, visitPoint S mesh st r))"

definition orbitSeeds :: "vector3i \<Rightarrow> matrix3i list \<Rightarrow> vector3i list" where
  "orbitSeeds S mesh =
     fst (foldl (visitSeed S mesh) ([], [], replicate (gInfo_nr S) False) (gridPoints S))"

text \<open>The destinations of one seed, one per operation in the order of \<open>symMesh\<close>.\<close>

definition orbit :: "vector3i \<Rightarrow> matrix3i list \<Rightarrow> vector3i \<Rightarrow> int list" where
  "orbit S mesh r = map (\<lambda>m. imageIndex S m r) mesh"

text \<open>The action of a mesh matrix on the points of the grid.\<close>

fun wrapPoint :: "vector3i \<Rightarrow> vector3i \<Rightarrow> vector3i" where
  "wrapPoint (s0, s1, s2) (r0, r1, r2) = (r0 mod s0, r1 mod s1, r2 mod s2)"

definition act :: "vector3i \<Rightarrow> matrix3i \<Rightarrow> vector3i \<Rightarrow> vector3i" where
  "act S m r = wrapPoint S (mulMVi m r)"

text \<open>The matrices act on the grid as a group: the identity is among them, and their
  actions are closed under inverse and composition.\<close>

definition actsAsGroup :: "vector3i \<Rightarrow> matrix3i list \<Rightarrow> bool" where
  "actsAsGroup S mesh \<longleftrightarrow>
     list_ex (\<lambda>m. m = identity3) mesh \<and>
     list_all (\<lambda>m. list_ex (\<lambda>m'. list_all (\<lambda>r. act S m' (act S m r) = r) (gridPoints S)) mesh) mesh \<and>
     list_all (\<lambda>m1. list_all (\<lambda>m2.
        list_ex (\<lambda>m3. list_all (\<lambda>r. act S m1 (act S m2 r) = act S m3 r) (gridPoints S)) mesh) mesh) mesh"

definition isGroup :: "matrix3i list \<Rightarrow> bool" where
  "isGroup ms \<longleftrightarrow>
     list_ex (\<lambda>m. m = identity3) ms \<and>
     list_all (\<lambda>a. list_ex (\<lambda>b. mulMM b a = identity3) ms) ms \<and>
     list_all (\<lambda>a. list_all (\<lambda>b. list_ex (\<lambda>c. c = mulMM a b) ms) ms) ms"

text \<open>The invariant of the loop, on the seeds, the table and the \<open>done\<close> flags.\<close>

definition orbitInv :: "vector3i \<Rightarrow> matrix3i list \<Rightarrow> vector3i list \<times> int list \<times> bool list \<Rightarrow> bool" where
  "orbitInv S mesh sst \<longleftrightarrow>
     (case sst of (seeds, vec, done) \<Rightarrow>
        vec = concat (map (orbit S mesh) seeds) \<and>
        length done = gInfo_nr S \<and>
        (\<forall>j<gInfo_nr S. done ! j \<longleftrightarrow> int j \<in> set vec) \<and>
        (\<forall>r\<in>set seeds. inRange S r) \<and>
        sorted_wrt (\<lambda>a b. fullRindex S b \<notin> set (orbit S mesh a)) seeds)"









text \<open>Following the spec's words, for the search of the embedding centre.
  \<open>nearestAwayFromZero x n\<close>: \<open>n\<close> is the integer nearest to \<open>x\<close>, the one away from zero at a
  tie, which is C's \<open>round\<close>.  \<open>candidatePoint S n dv\<close>: the point \<open>(n + dv) / S\<close>.
  \<open>fixedWithinTolerance\<close>: every operation moves the point by at most the tolerance.
  \<open>visitedBefore\<close>: the order of the search, by increasing Manhattan length and, within one
  length, by increasing first, then second, then third coordinate.\<close>

definition nearestAwayFromZero :: "real \<Rightarrow> int \<Rightarrow> bool" where
  "nearestAwayFromZero x n \<longleftrightarrow>
     \<bar>of_int n - x\<bar> < 1/2 \<or> (\<bar>of_int n - x\<bar> = 1/2 \<and> \<bar>x\<bar> < \<bar>of_int n\<bar>)"

fun candidatePoint :: "vector3i \<Rightarrow> vector3i \<Rightarrow> vector3i \<Rightarrow> vector3" where
  "candidatePoint (s0, s1, s2) (n0, n1, n2) (d0, d1, d2) =
     (of_int (n0 + d0) / of_int s0, of_int (n1 + d1) / of_int s1, of_int (n2 + d2) / of_int s2)"

definition fixedWithinTolerance :: "distance \<Rightarrow> real \<Rightarrow> matrix3i list \<Rightarrow> vector3 \<Rightarrow> bool" where
  "fixedWithinTolerance cds thrSq ms x \<longleftrightarrow> (\<forall>m\<in>set ms. cds x (mulMV m x) \<le> thrSq)"

fun visitedBefore :: "vector3i \<Rightarrow> vector3i \<Rightarrow> bool" where
  "visitedBefore (a0, a1, a2) (b0, b1, b2) \<longleftrightarrow>
     \<bar>a0\<bar> + \<bar>a1\<bar> + \<bar>a2\<bar> < \<bar>b0\<bar> + \<bar>b1\<bar> + \<bar>b2\<bar> \<or>
     (\<bar>a0\<bar> + \<bar>a1\<bar> + \<bar>a2\<bar> = \<bar>b0\<bar> + \<bar>b1\<bar> + \<bar>b2\<bar> \<and>
      (a0 < b0 \<or> (a0 = b0 \<and> (a1 < b1 \<or> (a1 = b1 \<and> a2 < b2)))))"

text \<open>The lexicographic order of index triples.\<close>

fun lexLess :: "vector3i \<Rightarrow> vector3i \<Rightarrow> bool" where
  "lexLess (a0, a1, a2) (b0, b1, b2) \<longleftrightarrow> a0 < b0 \<or> (a0 = b0 \<and> (a1 < b1 \<or> (a1 = b1 \<and> a2 < b2)))"

section \<open>Concrete instances\<close>

text \<open>Modelled from the spec: \<open>circDistanceSquared\<close>, which is declared outside
  \<open>Symmetries.cpp\<close>.  The spec asks for a squared toroidal distance that wraps to the nearest
  periodic image; here every coordinate difference is reduced by its nearest integer.  It is
  used for concrete instances only: every general statement below holds for any distance.\<close>

definition circDistanceSquared :: distance where
  "circDistanceSquared a b =
     (case subV a b of (x, y, z) \<Rightarrow>
        (x - of_int \<lfloor>x + 1/2\<rfloor>)\<^sup>2 + (y - of_int \<lfloor>y + 1/2\<rfloor>)\<^sup>2 + (z - of_int \<lfloor>z + 1/2\<rfloor>)\<^sup>2)"

text \<open>The double arithmetic of the machine, for the concrete instances: IEEE 754 binary64 with
  round to nearest, ties to even, for results in the normal range.  A nonzero real \<open>x\<close> with
  \<open>2^e \<le> |x| < 2^(e+1)\<close> is rounded to the nearest multiple of \<open>2^(e-52)\<close>.\<close>

definition roundHalfEven :: "real \<Rightarrow> int" where
  "roundHalfEven y =
     (let n = \<lfloor>y\<rfloor>; r = y - of_int n
      in if r < 1/2 then n else if 1/2 < r then n + 1 else if even n then n else n + 1)"

definition roundToDouble :: "real \<Rightarrow> real" where
  "roundToDouble x =
     (if x = 0 then 0
      else let e = \<lfloor>log 2 \<bar>x\<bar>\<rfloor>; ulp = 2 powi (e - 52)
           in ulp * of_int (roundHalfEven (x / ulp)))"

definition doubleAdd :: "real \<Rightarrow> real \<Rightarrow> real" where
  "doubleAdd a b = roundToDouble (a + b)"

definition doubleMul :: "real \<Rightarrow> real \<Rightarrow> real" where
  "doubleMul a b = roundToDouble (a * b)"

text \<open>A freshly constructed object: \<open>kpointInvertList\<close> and the orbit table are empty; the
  mode and the matrices are what the input commands set.\<close>

definition exampleSymmetries :: "SymmetryMode \<Rightarrow> matrix3i list \<Rightarrow> Symmetries" where
  "exampleSymmetries md ms =
     \<lparr>mode = md, sym = ms, symMesh = [], kpointInvertList = [], symmIndex = [],
      shouldMoveAtoms = False, symmThresholdSq = 1 / 100000000\<rparr>"

definition exampleEverything :: "vector3i \<Rightarrow> SpeciesInfo list \<Rightarrow> Everything" where
  "exampleEverything S species =
     \<lparr>gInfo_S = S, iInfo_species = species, coulombParams_embed = False,
      coulombParams_embedCenter = (0, 0, 0)\<rparr>"

definition inversion3 :: matrix3i where
  "inversion3 = ((- 1, 0, 0), (0, - 1, 0), (0, 0, - 1))"

definition rotation4z :: matrix3i where
  "rotation4z = ((0, - 1, 0), (1, 0, 0), (0, 0, 1))"

definition swapXY :: matrix3i where
  "swapXY = ((0, 1, 0), (1, 0, 0), (0, 0, 1))"

definition antiferroPair :: SpeciesInfo where
  "antiferroPair = \<lparr>atpos = [(1/4, 0, 0), (3/4, 0, 0)], initialMagneticMoments = [1, - 1]\<rparr>"

definition offCentreAtom :: SpeciesInfo where
  "offCentreAtom = \<lparr>atpos = [(1/4, 0, 0)], initialMagneticMoments = []\<rparr>"

definition embedExample :: Everything where
  "embedExample =
     (exampleEverything (5, 5, 5) [])\<lparr>coulombParams_embed := True, coulombParams_embedCenter := (1/2, 0, 0)\<rparr>"

definition gridExampleSymmetries :: Symmetries where
  "gridExampleSymmetries =
     (exampleSymmetries SymmetriesManual [identity3, swapXY])\<lparr>symMesh := [identity3, swapXY]\<rparr>"

section \<open>Double arithmetic at the instances\<close>

lemma binade_exponent:
  assumes "2 powi e \<le> \<bar>x\<bar>" and "\<bar>x\<bar> < 2 powi (e + 1)"
  shows "\<lfloor>log 2 \<bar>x\<bar>\<rfloor> = e"
proof -
  have "(0::real) < 2 powi e" by simp
  with assms(1) have pos: "0 < \<bar>x\<bar>" by linarith
  have lo: "2 powr (of_int e) \<le> \<bar>x\<bar>"
    using assms(1) by (simp add: powr_real_of_int')
  have "2 powr (of_int (e + 1)) = (2::real) powi (e + 1)"
    using powr_real_of_int' [of 2 "e + 1"] by simp
  then have hi: "\<bar>x\<bar> < 2 powr (of_int e + 1)"
    using assms(2) by simp
  show ?thesis
    using floor_log_eq_powr_iff [of "\<bar>x\<bar>" 2 e] pos lo hi by simp
qed

lemma roundToDouble_binade:
  assumes "2 powi e \<le> \<bar>x\<bar>" and "\<bar>x\<bar> < 2 powi (e + 1)"
  shows "roundToDouble x = 2 powi (e - 52) * of_int (roundHalfEven (x / 2 powi (e - 52)))"
proof -
  have "(0::real) < 2 powi e" by simp
  with assms(1) have "0 < \<bar>x\<bar>" by linarith
  then have "x \<noteq> 0" by simp
  then show ?thesis
    by (simp add: roundToDouble_def Let_def binade_exponent [OF assms])
qed

lemma doubleAdd_halves: "doubleAdd (1/2) (1/2) = 1"
  using roundToDouble_binade [of 0 1] by (simp add: doubleAdd_def roundHalfEven_def power_int_minus)



lemma doubleMul_half_five: "doubleMul (1/2) 5 = 5/2"
  using roundToDouble_binade [of 1 "5/2"]
  by (simp add: doubleMul_def roundHalfEven_def power_int_minus Let_def)

lemma doubleMul_zero: "doubleMul 0 x = 0"
  by (simp add: doubleMul_def roundToDouble_def)

text \<open>The double nearest to \<open>1/6\<close>, and its machine product with \<open>3\<close>: the exact product
  lies below \<open>1/2\<close>, the double product is \<open>1/2\<close>.\<close>

lemma sixth_is_double: "roundToDouble (1/6) = 6004799503160661 / 2 ^ 55"
  using roundToDouble_binade [of "- 3" "1/6"]
  by (simp add: roundHalfEven_def power_int_minus Let_def)

lemma doubleMul_sixth: "doubleMul (6004799503160661 / 2 ^ 55) 3 = 1/2"
  using roundToDouble_binade [of "- 2" "18014398509481983 / 2 ^ 55"]
  by (simp add: doubleMul_def roundHalfEven_def power_int_minus Let_def)

section \<open>Properties of \<open>reduceKmesh\<close>\<close>

lemma kFound_weight [simp]:
  "kFound cds thrSq ms invert (qi\<lparr>weight := w\<rparr>) qj = kFound cds thrSq ms invert qi qj"
  "kFound cds thrSq ms invert qi (qj\<lparr>weight := w\<rparr>) = kFound cds thrSq ms invert qi qj"
  by (simp_all add: kFound_def)


lemma gobble_char:
  "gobble wadd cds thrSq ms invert qi qs used = (qi', qs', used') \<Longrightarrow>
     qs' = filter (\<lambda>qj. \<not> kFound cds thrSq ms invert qi qj) qs \<and> k qi' = k qi \<and>
     used' = (used \<or> (invert < 0 \<and> length qs' < length qs))"
proof (induction qs arbitrary: qi used qi' qs' used')
  case Nil
  then show ?case by simp
next
  case (Cons qj rest)
  show ?case
  proof (cases "kFound cds thrSq ms invert qi qj")
    case True
    with Cons.prems have g: "gobble wadd cds thrSq ms invert (qi\<lparr>weight := wadd (weight qi) (weight qj)\<rparr>) rest (used \<or> invert < 0) = (qi', qs', used')"
      by simp
    have "length qs' \<le> length rest" using gobble_length [OF g] .
    with Cons.IH [OF g] True show ?thesis by (auto simp: less_Suc_eq_le)
  next
    case False
    with Cons.prems obtain r where r: "gobble wadd cds thrSq ms invert qi rest used = (qi', r, used')" and q: "qs' = qj # r"
      by (auto split: prod.splits)
    from Cons.IH [OF r] q False show ?thesis by auto
  qed
qed

lemma gobble_nothing:
  assumes "\<forall>qj\<in>set qs. \<not> kFound cds thrSq ms invert qi qj"
  shows "gobble wadd cds thrSq ms invert qi qs used = (qi, qs, used)"
  using assms by (induction qs) auto

lemma reducePass_nothing:
  "noPairFound cds thrSq ms invert qs \<Longrightarrow> reducePass wadd cds thrSq ms invert qs used = (qs, used)"
  by (induction qs) (auto simp: noPairFound_def gobble_nothing)

lemma reducePass_length:
  "length (fst (reducePass wadd cds thrSq ms invert qs used)) \<le> length qs"
proof (induction wadd cds thrSq ms invert qs used rule: reducePass.induct)
  case (1 wadd cds thrSq ms invert used)
  show ?case by simp
next
  case (2 wadd cds thrSq ms invert qi rest used)
  obtain qi' rest' used' where g: "gobble wadd cds thrSq ms invert qi rest used = (qi', rest', used')"
    by (cases "gobble wadd cds thrSq ms invert qi rest used") auto
  obtain out used'' where r: "reducePass wadd cds thrSq ms invert rest' used' = (out, used'')"
    by (cases "reducePass wadd cds thrSq ms invert rest' used'") auto
  have "length out \<le> length rest'"
    using "2.IH" [OF g [symmetric] refl] r by simp
  moreover have "length rest' \<le> length rest" using gobble_length [OF g] .
  ultimately show ?case using g r by simp
qed

lemma reducePass_used:
  "snd (reducePass wadd cds thrSq ms invert qs used) =
     (used \<or> (invert < 0 \<and> length (fst (reducePass wadd cds thrSq ms invert qs used)) < length qs))"
proof (induction wadd cds thrSq ms invert qs used rule: reducePass.induct)
  case (1 wadd cds thrSq ms invert used)
  show ?case by simp
next
  case (2 wadd cds thrSq ms invert qi rest used)
  obtain qi' rest' used' where g: "gobble wadd cds thrSq ms invert qi rest used = (qi', rest', used')"
    by (cases "gobble wadd cds thrSq ms invert qi rest used") auto
  obtain out used'' where r: "reducePass wadd cds thrSq ms invert rest' used' = (out, used'')"
    by (cases "reducePass wadd cds thrSq ms invert rest' used'") auto
  have u'': "used'' = (used' \<or> (invert < 0 \<and> length out < length rest'))"
    using "2.IH" [OF g [symmetric] refl] r by simp
  have u': "used' = (used \<or> (invert < 0 \<and> length rest' < length rest))"
    using gobble_char [OF g] by simp
  have l1: "length rest' \<le> length rest" using gobble_length [OF g] .
  have l2: "length out \<le> length rest'"
    using reducePass_length [of wadd cds thrSq ms invert rest' used'] r by simp
  show ?case using g r u' u'' l1 l2 by auto
qed




lemma reduceKmesh_passes:
  assumes "mode this \<noteq> SymmetriesNone"
  shows "reduceKmesh wadd cds this qnums =
     (case reducePass wadd cds (symmThresholdSq this) (sym this) 1 qnums False of
        (q1, u1) \<Rightarrow>
          (case reducePass wadd cds (symmThresholdSq this) (sym this) (- 1) q1 u1 of
             (q2, u2) \<Rightarrow> (q2, this\<lparr>kpointInvertList := (if u2 then [1, - 1] else [1])\<rparr>)))"
  using assms by (simp add: reduceKmesh_def split: prod.splits)

lemma reducePass_plain_unused:
  "snd (reducePass wadd cds thrSq ms 1 qs False) = False"
  using reducePass_used [of wadd cds thrSq ms 1 qs False] by simp















lemma mulMV_identity [simp]: "mulMV (transpose3 identity3) v = v"
  by (cases v) (simp add: identity3_def)

lemma kFound_identity:
  "kFound cds thrSq [identity3] invert qi qj = (cds (k qi) (scaleV invert (k qj)) < thrSq)"
  by (simp add: kFound_def)

text \<open>
  C2, as the code has it: with the identity as the only operation, \<open>reduceKmesh\<close> returns its
  input unchanged in the no-symmetry mode; in the other modes it does so when no k-point of
  the list lies within the tolerance of an earlier one or of the negative of an earlier one.
\<close>

theorem reduceKmesh_identity_only:
  assumes "sym this = [identity3]"
    and "mode this = SymmetriesNone \<or>
         (noPairFound cds (symmThresholdSq this) [identity3] 1 qnums \<and>
          noPairFound cds (symmThresholdSq this) [identity3] (- 1) qnums)"
  shows "fst (reduceKmesh wadd cds this qnums) = qnums"
proof (cases "mode this = SymmetriesNone")
  case True
  then show ?thesis by (simp add: reduceKmesh_def)
next
  case False
  with assms(2) have n1: "noPairFound cds (symmThresholdSq this) (sym this) 1 qnums"
    and n2: "noPairFound cds (symmThresholdSq this) (sym this) (- 1) qnums"
    using assms(1) by simp_all
  show ?thesis
    using reduceKmesh_passes [OF False, of wadd cds qnums]
    by (simp add: reducePass_nothing [OF n1] reducePass_nothing [OF n2])
qed

text \<open>C2 as stated fails in the manual and automatic modes: with the identity alone, the
  points \<open>k\<close> and \<open>-k\<close> are merged by the second pass.\<close>

theorem reduceKmesh_identity_only_counterexample:
  "sym (exampleSymmetries SymmetriesManual [identity3]) = [identity3] \<and>
   fst (reduceKmesh doubleAdd circDistanceSquared (exampleSymmetries SymmetriesManual [identity3])
          [\<lparr>k = (1/4, 0, 0), weight = 1/2\<rparr>, \<lparr>k = (- 1/4, 0, 0), weight = 1/2\<rparr>])
     = [\<lparr>k = (1/4, 0, 0), weight = 1\<rparr>] \<and>
   fst (reduceKmesh doubleAdd circDistanceSquared (exampleSymmetries SymmetriesManual [identity3])
          [\<lparr>k = (1/4, 0, 0), weight = 1/2\<rparr>, \<lparr>k = (- 1/4, 0, 0), weight = 1/2\<rparr>])
     \<noteq> [\<lparr>k = (1/4, 0, 0), weight = 1/2\<rparr>, \<lparr>k = (- 1/4, 0, 0), weight = 1/2\<rparr>]"
  by (simp add: reduceKmesh_def exampleSymmetries_def kFound_def identity3_def circDistanceSquared_def
      doubleAdd_halves)

text \<open>An instance: two points that are not related, directly or through \<open>k \<rightarrow> -k\<close>, are kept.\<close>

theorem reduceKmesh_identity_only_witness:
  "fst (reduceKmesh doubleAdd circDistanceSquared (exampleSymmetries SymmetriesManual [identity3])
          [\<lparr>k = (0, 0, 0), weight = 1/2\<rparr>, \<lparr>k = (1/4, 0, 0), weight = 1/2\<rparr>])
     = [\<lparr>k = (0, 0, 0), weight = 1/2\<rparr>, \<lparr>k = (1/4, 0, 0), weight = 1/2\<rparr>]"
proof -
  have h1: "sym (exampleSymmetries SymmetriesManual [identity3]) = [identity3]"
    by (simp add: exampleSymmetries_def)
  have h2: "mode (exampleSymmetries SymmetriesManual [identity3]) = SymmetriesNone \<or>
         (noPairFound circDistanceSquared (symmThresholdSq (exampleSymmetries SymmetriesManual [identity3])) [identity3] 1
            [\<lparr>k = (0, 0, 0), weight = 1/2\<rparr>, \<lparr>k = (1/4, 0, 0), weight = 1/2\<rparr>] \<and>
          noPairFound circDistanceSquared (symmThresholdSq (exampleSymmetries SymmetriesManual [identity3])) [identity3] (- 1)
            [\<lparr>k = (0, 0, 0), weight = 1/2\<rparr>, \<lparr>k = (1/4, 0, 0), weight = 1/2\<rparr>])"
    by (simp add: noPairFound_def kFound_identity exampleSymmetries_def circDistanceSquared_def power2_eq_square)
  show ?thesis by (rule reduceKmesh_identity_only [OF h1 h2])
qed

text \<open>
  C4 in the no-symmetry mode: \<open>reduceKmesh\<close> returns before it sets \<open>kpointInvertList\<close>, so
  on a freshly constructed object \<open>getKpointInvertList\<close> gives the empty list afterwards,
  neither \<open>[+1]\<close> nor \<open>[+1, -1]\<close>.
\<close>

theorem reduceKmesh_none_invertList_unset:
  "getKpointInvertList (snd (reduceKmesh wadd cds (exampleSymmetries SymmetriesNone [identity3]) qnums)) = []"
  by (simp add: reduceKmesh_def getKpointInvertList_def exampleSymmetries_def)

text \<open>In the other modes the invert list is \<open>[+1, -1]\<close> when the second pass merged
  something and \<open>[+1]\<close> otherwise.\<close>

lemma reduceKmesh_invertList:
  assumes "mode this \<noteq> SymmetriesNone"
  shows "getKpointInvertList (snd (reduceKmesh wadd cds this qnums)) =
     (if length (fst (reduceKmesh wadd cds this qnums))
           < length (fst (reducePass wadd cds (symmThresholdSq this) (sym this) 1 qnums False))
      then [1, - 1] else [1])"
proof -
  obtain q1 u1 where p1: "reducePass wadd cds (symmThresholdSq this) (sym this) 1 qnums False = (q1, u1)"
    by (cases "reducePass wadd cds (symmThresholdSq this) (sym this) 1 qnums False") auto
  have u1: "u1 = False"
    using reducePass_plain_unused [of wadd cds "symmThresholdSq this" "sym this" qnums] p1 by simp
  obtain q2 u2 where p2: "reducePass wadd cds (symmThresholdSq this) (sym this) (- 1) q1 False = (q2, u2)"
    by (cases "reducePass wadd cds (symmThresholdSq this) (sym this) (- 1) q1 False") auto
  have "u2 = (length q2 < length q1)"
    using reducePass_used [of wadd cds "symmThresholdSq this" "sym this" "- 1" q1 False] p2 by simp
  then show ?thesis
    using reduceKmesh_passes [OF assms, of wadd cds qnums] p1 p2 u1
    by (simp add: getKpointInvertList_def)
qed







section \<open>Properties of \<open>checkSymmetries\<close> and \<open>basisReduce\<close>\<close>

text \<open>
  C3 at a concrete structure: two atoms of one species at \<open>1/4\<close> and \<open>3/4\<close> with opposite
  magnetic moments, and the inversion among the supplied matrices.  \<open>checkSymmetries\<close>
  accepts the matrices, since it compares positions only; \<open>basisReduce\<close> with zero offset
  drops the inversion, since the only image of each atom carries the other moment.
\<close>

theorem checkSymmetries_ignores_moments:
  "checkSymmetries circDistanceSquared (exampleSymmetries SymmetriesManual [identity3, inversion3])
       (exampleEverything (4, 4, 4) [antiferroPair]) = Inr () \<and>
   basisReduce circDistanceSquared (exampleSymmetries SymmetriesManual [identity3, inversion3])
       (exampleEverything (4, 4, 4) [antiferroPair]) [identity3, inversion3] (0, 0, 0) = [identity3]"
  by (simp add: checkSymmetries_def basisReduce_def basisSymmetric_def imageAt_def
      exampleSymmetries_def exampleEverything_def antiferroPair_def identity3_def inversion3_def
      circDistanceSquared_def upt_rec power2_eq_square)

text \<open>Without magnetic moments the two conditions agree.\<close>

lemma subV_zero [simp]: "subV v (0, 0, 0) = v"
  by (cases v) simp

lemma addV_zero [simp]: "addV (0, 0, 0) v = v"
  by (cases v) simp

lemma index_loops_as_element_loops:
  "list_all (\<lambda>a1. list_ex (\<lambda>a2. P (xs ! a1) (xs ! a2)) [0 ..< length xs]) [0 ..< length xs] \<longleftrightarrow>
   list_all (\<lambda>x. list_ex (\<lambda>y. P x y) xs) xs"
proof -
  have "(\<forall>a1<length xs. \<exists>a2<length xs. P (xs ! a1) (xs ! a2)) \<longleftrightarrow> (\<forall>x\<in>set xs. \<exists>y\<in>set xs. P x y)"
    unfolding all_set_conv_all_nth by (metis in_set_conv_nth)
  then show ?thesis
    by (simp add: list_all_iff list_ex_iff Ball_def Bex_def)
qed

lemma basisSymmetric_without_moments:
  assumes "\<forall>sp\<in>set species. initialMagneticMoments sp = []"
  shows "basisSymmetric cds thrSq species (0, 0, 0) m \<longleftrightarrow>
     list_all (\<lambda>sp. list_all (\<lambda>pos1. list_ex (\<lambda>pos2. cds (mulMV m pos1) pos2 < thrSq) (atpos sp)) (atpos sp)) species"
proof -
  have "list_all (\<lambda>a1. list_ex (imageAt cds thrSq sp (mulMV m (atpos sp ! a1)) a1) [0 ..< length (atpos sp)])
          [0 ..< length (atpos sp)] \<longleftrightarrow>
        list_all (\<lambda>pos1. list_ex (\<lambda>pos2. cds (mulMV m pos1) pos2 < thrSq) (atpos sp)) (atpos sp)"
    if "sp \<in> set species" for sp
  proof -
    from that assms have "initialMagneticMoments sp = []" by simp
    then have "imageAt cds thrSq sp (mulMV m (atpos sp ! a1)) a1 =
        (\<lambda>a2. cds (mulMV m (atpos sp ! a1)) (atpos sp ! a2) < thrSq)" for a1
      by (simp add: imageAt_def fun_eq_iff)
    then show ?thesis
      using index_loops_as_element_loops [of "\<lambda>x y. cds (mulMV m x) y < thrSq" "atpos sp"]
      by simp
  qed
  then show ?thesis
    by (simp add: basisSymmetric_def list_all_iff)
qed

lemma checkSymmetries_eq_basisReduce_without_moments:
  assumes "\<forall>sp\<in>set (iInfo_species e). initialMagneticMoments sp = []"
  shows "checkSymmetries cds this e = Inr () \<longleftrightarrow> basisReduce cds this e (sym this) (0, 0, 0) = sym this"
proof -
  have "basisReduce cds this e (sym this) (0, 0, 0) = sym this \<longleftrightarrow>
        (\<forall>m\<in>set (sym this). basisSymmetric cds (symmThresholdSq this) (iInfo_species e) (0, 0, 0) m)"
    by (simp add: basisReduce_def filter_id_conv)
  then show ?thesis
    by (simp add: checkSymmetries_def basisSymmetric_without_moments [OF assms] list_all_iff)
qed

section \<open>Properties of \<open>calcSymmetries\<close>\<close>

lemma basisReduce_this:
  "symmThresholdSq this' = symmThresholdSq this \<Longrightarrow> basisReduce cds this' = basisReduce cds this"
  by (simp add: basisReduce_def fun_eq_iff)

lemma sortSymmetries_swaps_length:
  "length (foldl (\<lambda>s i. if s ! i = identity3 then s[0 := s ! i, i := s ! 0] else s) xs is) = length xs"
  by (induction "is" arbitrary: xs) simp_all

lemma sortSymmetries_length [simp]: "length (sym (sortSymmetries this)) = length (sym this)"
  by (simp add: sortSymmetries_def sortSymmetries_swaps_length)

lemma sortSymmetries_fields [simp]:
  "symmThresholdSq (sortSymmetries this) = symmThresholdSq this"
  "shouldMoveAtoms (sortSymmetries this) = shouldMoveAtoms this"
  by (simp_all add: sortSymmetries_def)

lemma betterCenter_result:
  assumes "betterCenter cds this e symLattice (rCenter, s) candidates = (rCenter', s')"
  shows "length s \<le> length s' \<and>
         (\<forall>c\<in>set candidates. length (basisReduce cds this e symLattice c) \<le> length s') \<and>
         ((rCenter', s') = (rCenter, s) \<or>
          (rCenter' \<in> set candidates \<and> s' = basisReduce cds this e symLattice rCenter' \<and>
           length s < length s'))"
  using assms
proof (induction candidates arbitrary: rCenter s)
  case Nil
  then show ?case by (simp add: betterCenter_def)
next
  case (Cons c cs)
  let ?t = "basisReduce cds this e symLattice c"
  show ?case
  proof (cases "length ?t > length s")
    case True
    with Cons.prems have "betterCenter cds this e symLattice (c, ?t) cs = (rCenter', s')"
      by (simp add: betterCenter_def)
    from Cons.IH [OF this] True show ?thesis by auto
  next
    case False
    with Cons.prems have "betterCenter cds this e symLattice (rCenter, s) cs = (rCenter', s')"
      by (simp add: betterCenter_def)
    from Cons.IH [OF this] False show ?thesis by auto
  qed
qed

text \<open>
  C10: when the search for a better centre is enabled and some candidate origin gives a
  strictly larger group than the origin, \<open>calcSymmetries\<close> dies, and at that moment every
  atom position of every species has been replaced by \<open>pos - rCenter\<close>, where \<open>rCenter\<close> is
  a candidate with a strictly larger group.
\<close>

theorem calcSymmetries_moves_atoms_before_dying:
  assumes "shouldMoveAtoms this"
    and "\<exists>c\<in>set (rCenterCandidates e).
           length (basisReduce cds this e symLattice (0, 0, 0)) < length (basisReduce cds this e symLattice c)"
  shows "\<exists>rCenter\<in>set (rCenterCandidates e). \<exists>this'.
           length (basisReduce cds this e symLattice (0, 0, 0)) < length (basisReduce cds this e symLattice rCenter) \<and>
           calcSymmetries cds symLattice this e =
             (Some BetterSymmetryCenter, this',
              e\<lparr>iInfo_species :=
                  map (\<lambda>sp. sp\<lparr>atpos := map (\<lambda>pos. subV pos rCenter) (atpos sp)\<rparr>) (iInfo_species e)\<rparr>)"
proof -
  define this1 where "this1 = sortSymmetries (this\<lparr>sym := basisReduce cds this e symLattice (0, 0, 0)\<rparr>)"
  have br: "basisReduce cds this1 = basisReduce cds this"
    by (rule basisReduce_this) (simp add: this1_def)
  have len1: "length (sym this1) = length (basisReduce cds this e symLattice (0, 0, 0))"
    by (simp add: this1_def)
  have move: "shouldMoveAtoms this1" using assms(1) by (simp add: this1_def)
  obtain rCenter s where bc:
    "betterCenter cds this1 e symLattice ((0, 0, 0), sym this1) (rCenterCandidates e) = (rCenter, s)"
    by (cases "betterCenter cds this1 e symLattice ((0, 0, 0), sym this1) (rCenterCandidates e)") auto
  note res = betterCenter_result [OF bc, unfolded br]
  from assms(2) obtain c where c: "c \<in> set (rCenterCandidates e)"
    "length (sym this1) < length (basisReduce cds this e symLattice c)"
    using len1 by auto
  with res have bigger: "length (sym this1) < length s" by fastforce
  with res have rc: "rCenter \<in> set (rCenterCandidates e)" "s = basisReduce cds this e symLattice rCenter"
    by auto
  have "calcSymmetries cds symLattice this e =
          (Some BetterSymmetryCenter, this1\<lparr>sym := s\<rparr>,
           e\<lparr>iInfo_species :=
               map (\<lambda>sp. sp\<lparr>atpos := map (\<lambda>pos. subV pos rCenter) (atpos sp)\<rparr>) (iInfo_species e)\<rparr>)"
    using move bc bigger by (simp add: calcSymmetries_def Let_def flip: this1_def)
  with rc bigger len1 show ?thesis by auto
qed

text \<open>An instance: one atom at \<open>1/4\<close> and the inversion among the lattice symmetries; the
  atom is moved to the origin before the process dies.\<close>

theorem calcSymmetries_moves_atoms_before_dying_witness:
  "calcSymmetries circDistanceSquared [identity3, inversion3]
       ((exampleSymmetries SymmetriesAutomatic [])\<lparr>shouldMoveAtoms := True\<rparr>)
       (exampleEverything (4, 4, 4) [offCentreAtom]) =
     (Some BetterSymmetryCenter,
      (exampleSymmetries SymmetriesAutomatic [identity3, inversion3])\<lparr>shouldMoveAtoms := True\<rparr>,
      exampleEverything (4, 4, 4) [offCentreAtom\<lparr>atpos := [(0, 0, 0)]\<rparr>])"
proof -
  let ?sy = "(exampleSymmetries SymmetriesAutomatic [])\<lparr>shouldMoveAtoms := True\<rparr>"
  let ?ev = "exampleEverything (4, 4, 4) [offCentreAtom]"
  have cands: "rCenterCandidates ?ev = [(1/4, 0, 0)]"
    by (simp add: rCenterCandidates_def exampleEverything_def offCentreAtom_def)
  have r0: "basisReduce circDistanceSquared ?sy ?ev [identity3, inversion3] (0, 0, 0) = [identity3]"
    by (simp add: basisReduce_def basisSymmetric_def imageAt_def exampleSymmetries_def
        exampleEverything_def offCentreAtom_def identity3_def inversion3_def circDistanceSquared_def
        power2_eq_square)
  have r1: "basisReduce circDistanceSquared ?sy ?ev [identity3, inversion3] (1/4, 0, 0) = [identity3, inversion3]"
    by (simp add: basisReduce_def basisSymmetric_def imageAt_def exampleSymmetries_def
        exampleEverything_def offCentreAtom_def identity3_def inversion3_def circDistanceSquared_def
        power2_eq_square)
  have h1: "shouldMoveAtoms ?sy" by simp
  have h2: "\<exists>c\<in>set (rCenterCandidates ?ev).
      length (basisReduce circDistanceSquared ?sy ?ev [identity3, inversion3] (0, 0, 0))
        < length (basisReduce circDistanceSquared ?sy ?ev [identity3, inversion3] c)"
    by (simp add: cands r0 r1)
  from calcSymmetries_moves_atoms_before_dying [OF h1 h2]
  obtain this' where
    "calcSymmetries circDistanceSquared [identity3, inversion3] ?sy ?ev =
       (Some BetterSymmetryCenter, this',
        ?ev\<lparr>iInfo_species := map (\<lambda>sp. sp\<lparr>atpos := map (\<lambda>pos. subV pos (1/4, 0, 0)) (atpos sp)\<rparr>) (iInfo_species ?ev)\<rparr>)"
    by (auto simp: cands)
  moreover have "fst (snd (calcSymmetries circDistanceSquared [identity3, inversion3] ?sy ?ev)) =
      (exampleSymmetries SymmetriesAutomatic [identity3, inversion3])\<lparr>shouldMoveAtoms := True\<rparr>"
    by (simp add: calcSymmetries_def Let_def betterCenter_def sortSymmetries_def rCenterCandidates_def
        basisReduce_def basisSymmetric_def imageAt_def exampleSymmetries_def exampleEverything_def
        offCentreAtom_def identity3_def inversion3_def circDistanceSquared_def power2_eq_square)
  ultimately show ?thesis
    by (simp add: exampleEverything_def offCentreAtom_def)
qed

section \<open>Properties of \<open>checkFFTbox\<close>\<close>

lemma smod_eq_0_iff_dvd: "b \<noteq> 0 \<Longrightarrow> (a::int) smod b = 0 \<longleftrightarrow> b dvd a"
  by (auto simp: signed_modulo_int_def sgn_if dvd_eq_mod_eq_0 [symmetric])

lemma sdiv_exact: "b dvd a \<Longrightarrow> (a::int) sdiv b = a div b"
  by (simp add: signed_divide_int_eq_divide_int)

lemma divideRow_eq:
  assumes "s0 \<noteq> 0" "s1 \<noteq> 0" "s2 \<noteq> 0"
  shows "divideRow (a, b, c) (s0, s1, s2) =
     (if s0 dvd a \<and> s1 dvd b \<and> s2 dvd c then Inr (a div s0, b div s1, c div s2)
      else Inl FFTboxNotCommensurate)"
  using assms by (simp add: smod_eq_0_iff_dvd sdiv_exact)

lemma meshMatrix_eq:
  assumes "0 < s0" "0 < s1" "0 < s2"
  shows "meshMatrix (s0, s1, s2) m =
     (if commensurate (s0, s1, s2) m then Inr (gridSpaceMatrix (s0, s1, s2) m)
      else Inl FFTboxNotCommensurate)"
proof -
  obtain a b c d e f g h i where m: "m = ((a, b, c), (d, e, f), (g, h, i))"
    by (metis prod_cases3)
  have nz: "s0 \<noteq> 0" "s1 \<noteq> 0" "s2 \<noteq> 0" using assms by simp_all
  show ?thesis
    unfolding m meshMatrix_def mulMM_def Diag_def
    by (simp add: divideRow_eq [OF nz] commensurate_def gridSpaceMatrix_def entry_def mult.commute
        del: divideRow.simps)
qed

lemma meshMatrices_eq:
  assumes "0 < s0" "0 < s1" "0 < s2"
  shows "meshMatrices (s0, s1, s2) ms =
     (if list_all (commensurate (s0, s1, s2)) ms then Inr (map (gridSpaceMatrix (s0, s1, s2)) ms)
      else Inl FFTboxNotCommensurate)"
  by (induction ms) (simp_all add: meshMatrix_eq [OF assms])

text \<open>
  C5: for positive grid dimensions, \<open>checkFFTbox\<close> dies with the commensuration error if
  and only if for some operation some \<open>S[i] * m(i,j)\<close> is not divisible by \<open>S[j]\<close>; whenever it
  returns, the mesh matrices have the entries \<open>S[i] * m(i,j) / S[j]\<close>; and it does return
  them when every such product is divisible and no embedding is active.
\<close>

theorem checkFFTbox_commensurate:
  assumes "gInfo_S e = (s0, s1, s2)" and "0 < s0" and "0 < s1" and "0 < s2"
  shows "(checkFFTbox dmul cds this e = Inl FFTboxNotCommensurate
            \<longleftrightarrow> \<not> list_all (commensurate (s0, s1, s2)) (sym this)) \<and>
         (\<forall>this' e'. checkFFTbox dmul cds this e = Inr (this', e')
            \<longrightarrow> symMesh this' = map (gridSpaceMatrix (s0, s1, s2)) (sym this)) \<and>
         (list_all (commensurate (s0, s1, s2)) (sym this) \<and> \<not> coulombParams_embed e
            \<longrightarrow> checkFFTbox dmul cds this e =
                  Inr (this\<lparr>symMesh := map (gridSpaceMatrix (s0, s1, s2)) (sym this)\<rparr>, e))"
  using assms(1) meshMatrices_eq [OF assms(2-4), of "sym this"]
  by (auto simp: checkFFTbox_def Let_def split: option.splits if_splits)

text \<open>The two instances of the claim: the fourfold rotation about the third axis passes
  with \<open>S = (4,4,4)\<close> and fails with \<open>S = (3,4,4)\<close>.\<close>

theorem checkFFTbox_commensurate_witness:
  "checkFFTbox doubleMul circDistanceSquared (exampleSymmetries SymmetriesManual [identity3, rotation4z])
       (exampleEverything (4, 4, 4) []) =
     Inr ((exampleSymmetries SymmetriesManual [identity3, rotation4z])\<lparr>symMesh := [identity3, rotation4z]\<rparr>,
          exampleEverything (4, 4, 4) []) \<and>
   checkFFTbox doubleMul circDistanceSquared (exampleSymmetries SymmetriesManual [identity3, rotation4z])
       (exampleEverything (3, 4, 4) []) = Inl FFTboxNotCommensurate"
proof -
  have a: "gInfo_S (exampleEverything (4, 4, 4) []) = (4, 4, 4)"
    and b: "gInfo_S (exampleEverything (3, 4, 4) []) = (3, 4, 4)"
    by (simp_all add: exampleEverything_def)
  have c: "list_all (commensurate (4, 4, 4)) [identity3, rotation4z]"
    and d: "\<not> list_all (commensurate (3, 4, 4)) [identity3, rotation4z]"
    and g: "map (gridSpaceMatrix (4, 4, 4)) [identity3, rotation4z] = [identity3, rotation4z]"
    by (simp_all add: commensurate_def gridSpaceMatrix_def entry_def identity3_def rotation4z_def)
  show ?thesis
    using checkFFTbox_commensurate [OF a, of doubleMul circDistanceSquared "exampleSymmetries SymmetriesManual [identity3, rotation4z]"]
      checkFFTbox_commensurate [OF b, of doubleMul circDistanceSquared "exampleSymmetries SymmetriesManual [identity3, rotation4z]"]
      c d g
    by (simp add: exampleSymmetries_def exampleEverything_def)
qed

lemma triple_in_map: "(x, y, z) \<in> set (map (\<lambda>c. (a, b, c)) cs) \<longleftrightarrow> x = a \<and> y = b \<and> z \<in> set cs"
  by auto

lemma shell_member:
  "(x, y, z) \<in> set (shell d) \<longleftrightarrow>
     \<bar>x\<bar> \<le> d \<and> \<bar>y\<bar> \<le> d - \<bar>x\<bar> \<and>
     (if d - \<bar>x\<bar> - \<bar>y\<bar> = 0 then z = 0 else z = - (d - \<bar>x\<bar> - \<bar>y\<bar>) \<or> z = d - \<bar>x\<bar> - \<bar>y\<bar>)"
proof -
  have "(x, y, z) \<in> set (shell d) \<longleftrightarrow>
      (\<exists>dv0\<in>{- d .. d}. \<exists>dv1\<in>{- (d - \<bar>dv0\<bar>) .. d - \<bar>dv0\<bar>}.
         x = dv0 \<and> y = dv1 \<and>
         z \<in> set (if d - \<bar>dv0\<bar> - \<bar>dv1\<bar> = 0 then [0] else [- (d - \<bar>dv0\<bar> - \<bar>dv1\<bar>), d - \<bar>dv0\<bar> - \<bar>dv1\<bar>]))"
    unfolding shell_def Let_def set_concat set_map UN_iff bex_simps image_iff triple_in_map set_upto
    by (simp only: Bex_def) blast
  also have "\<dots> \<longleftrightarrow> x \<in> {- d .. d} \<and> y \<in> {- (d - \<bar>x\<bar>) .. d - \<bar>x\<bar>} \<and>
         z \<in> set (if d - \<bar>x\<bar> - \<bar>y\<bar> = 0 then [0] else [- (d - \<bar>x\<bar> - \<bar>y\<bar>), d - \<bar>x\<bar> - \<bar>y\<bar>])"
    by blast
  also have "\<dots> \<longleftrightarrow> \<bar>x\<bar> \<le> d \<and> \<bar>y\<bar> \<le> d - \<bar>x\<bar> \<and>
     (if d - \<bar>x\<bar> - \<bar>y\<bar> = 0 then z = 0 else z = - (d - \<bar>x\<bar> - \<bar>y\<bar>) \<or> z = d - \<bar>x\<bar> - \<bar>y\<bar>)"
    by (simp add: abs_le_iff) linarith
  finally show ?thesis .
qed

lemma shell_set: "set (shell d) = {dv. manhattan dv = d}"
proof (rule set_eqI)
  fix dv :: vector3i
  obtain x y z where dv: "dv = (x, y, z)" by (cases dv) auto
  show "dv \<in> set (shell d) \<longleftrightarrow> dv \<in> {dv. manhattan dv = d}"
    unfolding dv shell_member by (simp split: if_splits) linarith
qed

lemma searchShells_None:
  "searchShells valid ds = None \<longleftrightarrow> (\<forall>d\<in>set ds. \<forall>dv\<in>set (shell d). \<not> valid dv)"
proof (induction ds)
  case Nil
  show ?case by simp
next
  case (Cons d ds)
  show ?case
  proof (cases "find valid (shell d)")
    case None
    then have "\<forall>dv\<in>set (shell d). \<not> valid dv" by (metis find_None_iff)
    with None Cons.IH show ?thesis by simp
  next
    case (Some v)
    then have "v \<in> set (shell d)" "valid v" by (auto simp: find_Some_iff)
    with Some show ?thesis by auto
  qed
qed

lemma sorted_wrt_upto: "sorted_wrt (<) [i..j]"
  by (simp add: strict_sorted_iff)

text \<open>The grid index nearest to the centre is rounded from the double product: for the
  double nearest to \<open>1/6\<close> on a grid of 3 points it is 1, where the exact product would
  give 0.\<close>

lemma iv0_of_rounds_product:
  "iv0_of doubleMul (3, 3, 3) (6004799503160661 / 2 ^ 55, 0, 0) = (1, 0, 0) \<and>
   iv0_of (*) (3, 3, 3) (6004799503160661 / 2 ^ 55, 0, 0) = (0, 0, 0)"
proof -
  have "cround (doubleMul (6004799503160661 / 2 ^ 55) 3) = 1"
    unfolding doubleMul_sixth by (simp add: cround_def)
  moreover have "cround (6004799503160661 / 2 ^ 55 * 3) = 0"
    by (simp add: cround_def)
  moreover have "cround (doubleMul 0 3) = 0" and "cround (0 * 3) = 0"
    by (simp_all add: doubleMul_zero cround_def)
  ultimately show ?thesis
    by (simp add: iv0_of_def)
qed

lemma cround_nearest:
  assumes "nearestAwayFromZero x n"
  shows "cround x = n"
proof -
  consider "n \<le> - 1" | "n = 0" | "1 \<le> n" by linarith
  then have sign: "real_of_int n \<le> - 1 \<or> real_of_int n = 0 \<or> 1 \<le> real_of_int n"
    by cases simp_all
  show ?thesis
  proof (cases "0 \<le> x")
    case True
    with assms sign have "of_int n \<le> x + 1/2 \<and> x + 1/2 < of_int n + 1"
      unfolding nearestAwayFromZero_def by (auto simp: abs_if split: if_splits)
    then have "\<lfloor>x + 1/2\<rfloor> = n" by (simp add: floor_eq_iff)
    with True show ?thesis by (simp add: cround_def)
  next
    case False
    with assms sign have "of_int (- n) \<le> - x + 1/2 \<and> - x + 1/2 < of_int (- n) + 1"
      unfolding nearestAwayFromZero_def by (auto simp: abs_if split: if_splits)
    then have "\<lfloor>- x + 1/2\<rfloor> = - n" by (simp only: floor_eq_iff)
    with False show ?thesis by (simp add: cround_def)
  qed
qed

lemma dMax_positive:
  assumes "0 < s0" "0 < s1" "0 < s2"
  shows "dMax (s0, s1, s2) = (s0 + s1 + s2) div 2 + 1"
  using assms by (simp add: dMax_def signed_divide_int_def)

lemma gridPoint_candidate:
  "gridPoint (s0, s1, s2) (addVi (n0, n1, n2) dv) = candidatePoint (s0, s1, s2) (n0, n1, n2) dv"
  by (cases dv) simp

lemma invariantPoint_fixed:
  "invariantPoint cds thrSq ms x \<longleftrightarrow> fixedWithinTolerance cds thrSq ms x"
  by (auto simp: invariantPoint_def fixedWithinTolerance_def list_all_iff)

text \<open>The points of one shell are visited in lexicographic order.\<close>

lemma sorted_wrt_concat_map:
  assumes "sorted_wrt lt xs"
    and "\<And>x. x \<in> set xs \<Longrightarrow> sorted_wrt R (f x)"
    and "\<And>x y a b. x \<in> set xs \<Longrightarrow> y \<in> set xs \<Longrightarrow> lt x y \<Longrightarrow> a \<in> set (f x) \<Longrightarrow> b \<in> set (f y) \<Longrightarrow> R a b"
  shows "sorted_wrt R (concat (map f xs))"
  using assms
proof (induction xs)
  case Nil
  show ?case by simp
next
  case (Cons x xs)
  have "sorted_wrt R (concat (map f xs))"
  proof (rule Cons.IH)
    show "sorted_wrt lt xs" using Cons.prems(1) by simp
    show "sorted_wrt R (f y)" if "y \<in> set xs" for y using Cons.prems(2) [of y] that by simp
    show "R a b" if "u \<in> set xs" "v \<in> set xs" "lt u v" "a \<in> set (f u)" "b \<in> set (f v)" for u v a b
      using Cons.prems(3) [of u v a b] that by simp
  qed
  moreover have "sorted_wrt R (f x)" using Cons.prems(2) by simp
  moreover have "R a b" if "a \<in> set (f x)" "b \<in> set (concat (map f xs))" for a b
  proof -
    from that(2) obtain y where y: "y \<in> set xs" "b \<in> set (f y)" by auto
    with Cons.prems(1) have "lt x y" by simp
    with Cons.prems(3) [of x y a b] y that(1) show ?thesis by simp
  qed
  ultimately show ?case by (simp add: sorted_wrt_append)
qed

lemma shell_sorted: "sorted_wrt lexLess (shell d)"
  unfolding shell_def Let_def
proof (rule sorted_wrt_concat_map [where lt = "(<)"], goal_cases)
  case 1
  show ?case by (simp add: strict_sorted_iff)
next
  case (2 dv0)
  show ?case
  proof (rule sorted_wrt_concat_map [where lt = "(<)"], goal_cases)
    case 1
    show ?case by (simp add: strict_sorted_iff)
  next
    case (2 dv1)
    then have "\<bar>dv1\<bar> \<le> d - \<bar>dv0\<bar>" by auto
    then show ?case by (auto simp: sorted_wrt_map)
  next
    case (3 x y a b)
    then show ?case by (auto split: if_splits)
  qed
next
  case (3 x y a b)
  then show ?case by (auto split: if_splits)
qed

lemma find_first_sorted:
  assumes "sorted_wrt R xs" and "\<And>a b. R a b \<Longrightarrow> \<not> R b a"
    and "find P xs = Some x" and "y \<in> set xs" and "R y x"
  shows "\<not> P y"
  using assms(1,3,4)
proof (induction xs)
  case Nil
  then show ?case by simp
next
  case (Cons z zs)
  show ?case
  proof (cases "P z")
    case True
    with Cons.prems(2) have xz: "x = z" by simp
    from Cons.prems(3) have "y = z \<or> y \<in> set zs" by simp
    then show ?thesis
    proof
      assume "y = z"
      with xz assms(5) assms(2) [of y x] show ?thesis by simp
    next
      assume "y \<in> set zs"
      with Cons.prems(1) have "R z y" by simp
      with xz assms(5) assms(2) [of y x] show ?thesis by simp
    qed
  next
    case False
    with Cons.prems(2) have f: "find P zs = Some x" by simp
    from Cons.prems(3) have "y = z \<or> y \<in> set zs" by simp
    then show ?thesis
    proof
      assume "y = z"
      with False show ?thesis by simp
    next
      assume "y \<in> set zs"
      with Cons.IH f Cons.prems(1) show ?thesis by simp
    qed
  qed
qed

lemma lexLess_asym: "lexLess a b \<Longrightarrow> \<not> lexLess b a"
  by (cases a; cases b) auto

lemma searchShells_first:
  assumes "sorted_wrt (<) ds" and "searchShells valid ds = Some dv"
  shows "\<exists>d\<in>set ds. find valid (shell d) = Some dv \<and>
           (\<forall>d'\<in>set ds. d' < d \<longrightarrow> (\<forall>v\<in>set (shell d'). \<not> valid v))"
  using assms
proof (induction ds)
  case Nil
  then show ?case by simp
next
  case (Cons d ds)
  show ?case
  proof (cases "find valid (shell d)")
    case None
    with Cons.prems have s: "searchShells valid ds = Some dv" by simp
    from Cons.prems have "sorted_wrt (<) ds" by simp
    from Cons.IH [OF this s] obtain d1 where d1: "d1 \<in> set ds" "find valid (shell d1) = Some dv"
      "\<forall>d'\<in>set ds. d' < d1 \<longrightarrow> (\<forall>v\<in>set (shell d'). \<not> valid v)" by blast
    from None have "\<forall>v\<in>set (shell d). \<not> valid v" by (metis find_None_iff)
    with d1 show ?thesis by auto
  next
    case (Some v)
    with Cons.prems have "find valid (shell d) = Some dv" by simp
    moreover from Cons.prems have "\<forall>d'\<in>set ds. d < d'" by simp
    ultimately show ?thesis by auto
  qed
qed

text \<open>
  C6: let the embedding be active, the grid dimensions positive, the operations commensurate
  with the grid, and the centre \<open>c\<close> moved by no operation by more than the tolerance.  Let \<open>n\<close>
  be the nearest integers, halves away from zero, to the double products \<open>c[k]*S[k]\<close>.  If
  some \<open>dv\<close> of Manhattan length at most \<open>(S[0]+S[1]+S[2])/2 + 1\<close> gives a point \<open>(n + dv)/S\<close>
  that every operation moves by at most the tolerance, \<open>checkFFTbox\<close> replaces the centre by
  such a point within that radius, the first in the order of the search: no valid \<open>dv\<close> has a
  smaller Manhattan length, and none of the same length comes earlier.  Otherwise it dies.
\<close>

theorem checkFFTbox_embedding_center:
  assumes "coulombParams_embed e"
    and "gInfo_S e = (s0, s1, s2)" and "0 < s0" and "0 < s1" and "0 < s2"
    and "coulombParams_embedCenter e = (c0, c1, c2)"
    and "nearestAwayFromZero (dmul c0 (of_int s0)) n0"
    and "nearestAwayFromZero (dmul c1 (of_int s1)) n1"
    and "nearestAwayFromZero (dmul c2 (of_int s2)) n2"
    and "meshMatrices (s0, s1, s2) (sym this) = Inr mesh"
    and "fixedWithinTolerance cds (symmThresholdSq this) (sym this) (c0, c1, c2)"
  shows "(let valid = (\<lambda>dv. fixedWithinTolerance cds (symmThresholdSq this) (sym this)
                               (candidatePoint (s0, s1, s2) (n0, n1, n2) dv));
              radius = (s0 + s1 + s2) div 2 + 1
          in if \<exists>dv. manhattan dv \<le> radius \<and> valid dv
             then \<exists>dv. checkFFTbox dmul cds this e =
                          Inr (this\<lparr>symMesh := mesh\<rparr>,
                               e\<lparr>coulombParams_embedCenter := candidatePoint (s0, s1, s2) (n0, n1, n2) dv\<rparr>) \<and>
                        valid dv \<and> manhattan dv \<le> radius \<and>
                        (\<forall>dv'. valid dv' \<longrightarrow> manhattan dv \<le> manhattan dv') \<and>
                        (\<forall>dv'. valid dv' \<longrightarrow> \<not> visitedBefore dv' dv)
             else checkFFTbox dmul cds this e = Inl NoEmbedGridPoint)"
proof -
  let ?S = "(s0, s1, s2)" and ?n = "(n0, n1, n2)"
  define radius where "radius = (s0 + s1 + s2) div 2 + 1"
  define valid where "valid = (\<lambda>dv. fixedWithinTolerance cds (symmThresholdSq this) (sym this)
                               (candidatePoint ?S ?n dv))"
  have iv0: "iv0_of dmul ?S (c0, c1, c2) = ?n"
    using assms(7-9) by (simp add: iv0_of_def cround_nearest)
  have dmax: "dMax ?S = radius"
    using assms(3-5) by (simp add: dMax_positive radius_def)
  have inv: "\<not> list_ex (\<lambda>m. cds (c0, c1, c2) (mulMV m (c0, c1, c2)) > symmThresholdSq this) (sym this)"
    using assms(11) by (auto simp: fixedWithinTolerance_def list_ex_iff)
  have test: "(\<lambda>dv. invariantPoint cds (symmThresholdSq this) (sym this) (gridPoint ?S (addVi ?n dv))) = valid"
    by (simp add: valid_def invariantPoint_fixed gridPoint_candidate)
  have run: "checkFFTbox dmul cds this e =
      (case searchShells valid [0 .. radius] of
         None \<Rightarrow> Inl NoEmbedGridPoint
       | Some dv \<Rightarrow> Inr (this\<lparr>symMesh := mesh\<rparr>,
                         e\<lparr>coulombParams_embedCenter := candidatePoint ?S ?n dv\<rparr>))"
    unfolding checkFFTbox_def Let_def assms(2) assms(6) iv0 dmax test
    using assms(1,10) inv by (simp add: gridPoint_candidate cong: option.case_cong)
  have nonneg: "0 \<le> manhattan dv" for dv by (cases dv) simp
  show ?thesis
  proof (cases "searchShells valid [0 .. radius]")
    case None
    then have none: "\<forall>d\<in>set [0 .. radius]. \<forall>dv\<in>set (shell d). \<not> valid dv"
      by (simp only: searchShells_None)
    have "\<not> valid dv" if "manhattan dv \<le> radius" for dv
    proof -
      from that nonneg [of dv] have "manhattan dv \<in> set [0 .. radius]" "dv \<in> set (shell (manhattan dv))"
        by (simp_all add: shell_set)
      with none show ?thesis by blast
    qed
    then have "\<not> (\<exists>dv. manhattan dv \<le> radius \<and> valid dv)" by blast
    with None run show ?thesis
      unfolding Let_def valid_def [symmetric] radius_def [symmetric] by simp
  next
    case (Some dv)
    from searchShells_first [OF sorted_wrt_upto Some]
    obtain d where d: "d \<in> set [0 .. radius]" "find valid (shell d) = Some dv"
      "\<forall>d'\<in>set [0 .. radius]. d' < d \<longrightarrow> (\<forall>v\<in>set (shell d'). \<not> valid v)" by blast
    from d(2) have in_shell: "dv \<in> set (shell d)" and ok: "valid dv"
      by (auto simp: find_Some_iff)
    from in_shell have md: "manhattan dv = d" by (simp add: shell_set)
    from d(1) md have le: "manhattan dv \<le> radius" by simp
    have earlier: "\<not> valid dv'" if "manhattan dv' < d" for dv'
    proof -
      from that nonneg [of dv'] d(1) have "manhattan dv' \<in> set [0 .. radius]" by simp
      moreover have "dv' \<in> set (shell (manhattan dv'))" by (simp add: shell_set)
      ultimately show ?thesis using d(3) that by blast
    qed
    have minimal: "manhattan dv \<le> manhattan dv'" if "valid dv'" for dv'
      using earlier [of dv'] that md by force
    have first: "\<not> visitedBefore dv' dv" if v': "valid dv'" for dv'
    proof
      assume before: "visitedBefore dv' dv"
      obtain a0 a1 a2 where a: "dv' = (a0, a1, a2)" by (cases dv') auto
      obtain b0 b1 b2 where b: "dv = (b0, b1, b2)" by (cases dv) auto
      from before have "manhattan dv' < manhattan dv \<or> (manhattan dv' = manhattan dv \<and> lexLess dv' dv)"
        by (simp add: a b)
      then show False
      proof
        assume "manhattan dv' < manhattan dv"
        with earlier [of dv'] md v' show False by simp
      next
        assume same: "manhattan dv' = manhattan dv \<and> lexLess dv' dv"
        then have "dv' \<in> set (shell d)" by (simp add: shell_set md)
        from find_first_sorted [OF shell_sorted lexLess_asym d(2) this] same v'
        show False by simp
      qed
    qed
    have "checkFFTbox dmul cds this e =
            Inr (this\<lparr>symMesh := mesh\<rparr>, e\<lparr>coulombParams_embedCenter := candidatePoint ?S ?n dv\<rparr>) \<and>
          valid dv \<and> manhattan dv \<le> radius \<and>
          (\<forall>dv'. valid dv' \<longrightarrow> manhattan dv \<le> manhattan dv') \<and>
          (\<forall>dv'. valid dv' \<longrightarrow> \<not> visitedBefore dv' dv)"
      using run Some ok le minimal first by simp
    then have found: "\<exists>dv. checkFFTbox dmul cds this e =
            Inr (this\<lparr>symMesh := mesh\<rparr>, e\<lparr>coulombParams_embedCenter := candidatePoint ?S ?n dv\<rparr>) \<and>
          valid dv \<and> manhattan dv \<le> radius \<and>
          (\<forall>dv'. valid dv' \<longrightarrow> manhattan dv \<le> manhattan dv') \<and>
          (\<forall>dv'. valid dv' \<longrightarrow> \<not> visitedBefore dv' dv)"
      by (rule exI)
    have ex: "\<exists>dv. manhattan dv \<le> radius \<and> valid dv" using le ok by blast
    show ?thesis
      unfolding Let_def valid_def [symmetric] radius_def [symmetric]
      using ex found by (simp only: if_True)
  qed
qed

text \<open>An instance: the grid \<open>(5,5,5)\<close>, the centre \<open>(1/2, 0, 0)\<close> and the inversion.  The
  nearest grid index is \<open>(3, 0, 0)\<close>; the shells of lengths 0 and 1 hold no point fixed by the
  inversion, and the first one of length 2 that is, \<open>dv = (2, 0, 0)\<close>, gives the centre
  \<open>(1, 0, 0)\<close>.\<close>

theorem checkFFTbox_embedding_center_witness:
  "coulombParams_embed embedExample \<and>
   nearestAwayFromZero (doubleMul (1/2) (of_int 5)) 3 \<and>
   meshMatrices (5, 5, 5) (sym (exampleSymmetries SymmetriesManual [identity3, inversion3]))
     = Inr [identity3, inversion3] \<and>
   fixedWithinTolerance circDistanceSquared (symmThresholdSq (exampleSymmetries SymmetriesManual [identity3, inversion3]))
     (sym (exampleSymmetries SymmetriesManual [identity3, inversion3])) (1/2, 0, 0) \<and>
   checkFFTbox doubleMul circDistanceSquared (exampleSymmetries SymmetriesManual [identity3, inversion3]) embedExample =
     Inr ((exampleSymmetries SymmetriesManual [identity3, inversion3])\<lparr>symMesh := [identity3, inversion3]\<rparr>,
          embedExample\<lparr>coulombParams_embedCenter := (1, 0, 0)\<rparr>)"
proof -
  let ?sy = "exampleSymmetries SymmetriesManual [identity3, inversion3]"
  have h1: "coulombParams_embed embedExample"
    and h2: "gInfo_S embedExample = (5, 5, 5)"
    and h6: "coulombParams_embedCenter embedExample = (1/2, 0, 0)"
    by (simp_all add: embedExample_def exampleEverything_def)
  have p: "(0::int) < 5" by simp
  have n0: "nearestAwayFromZero (doubleMul (1/2) (of_int 5)) 3"
    by (simp add: doubleMul_half_five nearestAwayFromZero_def)
  have n1: "nearestAwayFromZero (doubleMul 0 (of_int 5)) 0"
    by (simp add: doubleMul_zero nearestAwayFromZero_def)
  have h10: "meshMatrices (5, 5, 5) (sym ?sy) = Inr [identity3, inversion3]"
    by (simp add: exampleSymmetries_def meshMatrix_def mulMM_def Diag_def identity3_def inversion3_def)
  have h11: "fixedWithinTolerance circDistanceSquared (symmThresholdSq ?sy) (sym ?sy) (1/2, 0, 0)"
    by (simp add: exampleSymmetries_def fixedWithinTolerance_def identity3_def inversion3_def
        circDistanceSquared_def)
  have run: "checkFFTbox doubleMul circDistanceSquared ?sy embedExample =
     Inr (?sy\<lparr>symMesh := [identity3, inversion3]\<rparr>, embedExample\<lparr>coulombParams_embedCenter := (1, 0, 0)\<rparr>)"
    by (simp add: checkFFTbox_def embedExample_def exampleEverything_def exampleSymmetries_def meshMatrix_def
        mulMM_def Diag_def identity3_def inversion3_def Let_def invariantPoint_def circDistanceSquared_def
        iv0_of_def cround_def dMax_def shell_def upto_rec1 power2_eq_square doubleMul_half_five doubleMul_zero)
  show ?thesis
    using checkFFTbox_embedding_center [where dmul = doubleMul and cds = circDistanceSquared,
        OF h1 h2 p p p h6 n0 n1 n1 h10 h11] h1 n0 h10 h11 run by simp
qed

section \<open>Properties of \<open>initSymmIndex\<close>\<close>

lemma gridPoints_set: "set (gridPoints S) = {r. inRange S r}"
proof (rule set_eqI)
  fix r :: vector3i
  obtain s0 s1 s2 where S: "S = (s0, s1, s2)" by (cases S) auto
  obtain r0 r1 r2 where r: "r = (r0, r1, r2)" by (cases r) auto
  show "r \<in> set (gridPoints S) \<longleftrightarrow> r \<in> {r. inRange S r}"
    unfolding S r gridPoints_def prod.case set_concat set_map UN_iff bex_simps image_iff triple_in_map set_upto
    by (simp only: inRange.simps mem_Collect_eq Bex_def atLeastAtMost_iff) auto
qed

lemma wrap_smod:
  assumes "0 < s"
  shows "(if a smod s < 0 then a smod s + s else a smod s) = a mod (s::int)"
proof (cases "sgn a \<noteq> sgn s \<and> \<not> s dvd a")
  case True
  then have "a smod s = a mod s - s"
    by (simp add: signed_modulo_int_eq_modulo_int)
  moreover have "a mod s < s" using assms by simp
  ultimately show ?thesis by simp
next
  case False
  then have "a smod s = a mod s"
    by (simp add: signed_modulo_int_eq_modulo_int)
  moreover have "0 \<le> a mod s" using assms by simp
  ultimately show ?thesis by simp
qed

lemma imageIndex_act:
  assumes "0 < s0" "0 < s1" "0 < s2"
  shows "imageIndex (s0, s1, s2) m r = fullRindex (s0, s1, s2) (act (s0, s1, s2) m r)"
proof -
  obtain x y z where v: "mulMVi m r = (x, y, z)" by (cases "mulMVi m r") auto
  show ?thesis
    unfolding imageIndex_def act_def v
    by (simp only: projectIntoRange.simps fullGindex.simps wrapPoint.simps wrap_smod [OF assms(1)]
        wrap_smod [OF assms(2)] wrap_smod [OF assms(3)])
qed

lemma act_inRange:
  assumes "0 < s0" "0 < s1" "0 < s2"
  shows "inRange (s0, s1, s2) (act (s0, s1, s2) m r)"
proof -
  obtain x y z where v: "mulMVi m r = (x, y, z)" by (cases "mulMVi m r") auto
  show ?thesis unfolding act_def v using assms by simp
qed

lemma act_identity:
  assumes "inRange (s0, s1, s2) r"
  shows "act (s0, s1, s2) identity3 r = r"
proof -
  obtain r0 r1 r2 where r: "r = (r0, r1, r2)" by (cases r) auto
  show ?thesis using assms unfolding r act_def identity3_def by simp
qed

lemma fullRindex_bounds:
  assumes "inRange (s0, s1, s2) r"
  shows "0 \<le> fullRindex (s0, s1, s2) r \<and> fullRindex (s0, s1, s2) r < s0 * s1 * s2"
proof -
  obtain r0 r1 r2 where r: "r = (r0, r1, r2)" by (cases r) auto
  from assms have b: "0 \<le> r0" "r0 < s0" "0 \<le> r1" "r1 < s1" "0 \<le> r2" "r2 < s2"
    by (simp_all add: r)
  have "s1 * r0 \<le> s1 * (s0 - 1)" using b by (intro mult_left_mono) simp_all
  then have inner: "r1 + s1 * r0 \<le> s1 * s0 - 1" using b by (simp add: algebra_simps)
  have nn: "0 \<le> r1 + s1 * r0" using b by simp
  have "s2 * (r1 + s1 * r0) \<le> s2 * (s1 * s0 - 1)" using inner b by (intro mult_left_mono) simp_all
  then have "r2 + s2 * (r1 + s1 * r0) < s2 * (s1 * s0)" using b by (simp add: algebra_simps)
  moreover have "0 \<le> r2 + s2 * (r1 + s1 * r0)" using nn b by simp
  ultimately show ?thesis by (simp add: r mult.commute mult.left_commute)
qed

lemma fullRindex_inj:
  assumes "inRange (s0, s1, s2) r" "inRange (s0, s1, s2) r'"
    and "fullRindex (s0, s1, s2) r = fullRindex (s0, s1, s2) r'"
  shows "r = r'"
proof -
  obtain r0 r1 r2 where r: "r = (r0, r1, r2)" by (cases r) auto
  obtain q0 q1 q2 where r': "r' = (q0, q1, q2)" by (cases r') auto
  from assms(1) have b: "0 \<le> r0" "r0 < s0" "0 \<le> r1" "r1 < s1" "0 \<le> r2" "r2 < s2"
    by (simp_all add: r)
  from assms(2) have c: "0 \<le> q0" "q0 < s0" "0 \<le> q1" "q1 < s1" "0 \<le> q2" "q2 < s2"
    by (simp_all add: r')
  from assms(3) have eq: "r2 + s2 * (r1 + s1 * r0) = q2 + s2 * (q1 + s1 * q0)"
    by (simp add: r r')
  have "(r2 + s2 * (r1 + s1 * r0)) mod s2 = r2" "(q2 + s2 * (q1 + s1 * q0)) mod s2 = q2"
    using b c by simp_all
  with eq have e2: "r2 = q2" by simp
  with eq b have eq1: "r1 + s1 * r0 = q1 + s1 * q0" by simp
  have "(r1 + s1 * r0) mod s1 = r1" "(q1 + s1 * q0) mod s1 = q1"
    using b c by simp_all
  with eq1 have e1: "r1 = q1" by simp
  with eq1 b have "r0 = q0" by simp
  with e1 e2 show ?thesis by (simp add: r r')
qed

lemma int_div_less:
  assumes "0 < (s::int)" and "p < s * n"
  shows "p div s < n"
proof (rule ccontr)
  assume "\<not> p div s < n"
  then have "n \<le> p div s" by simp
  then have "s * n \<le> s * (p div s)" using assms(1) by (intro mult_left_mono) simp_all
  also have "s * (p div s) = p - p mod s" by (simp add: minus_mod_eq_mult_div)
  also have "\<dots> \<le> p" using assms(1) by simp
  finally show False using assms(2) by simp
qed

lemma fullRindex_surj:
  assumes "0 < s0" "0 < s1" "0 < s2" and "0 \<le> p" "p < s0 * s1 * s2"
  shows "\<exists>r. inRange (s0, s1, s2) r \<and> fullRindex (s0, s1, s2) r = p"
proof -
  let ?r2 = "p mod s2" and ?q = "p div s2"
  let ?r1 = "?q mod s1" and ?r0 = "?q div s1"
  have "p < s2 * (s1 * s0)" using assms(5) by (simp add: mult.commute mult.left_commute)
  then have "?q < s1 * s0" using assms(3) by (rule int_div_less [rotated])
  then have "?r0 < s0" using assms(2) by (rule int_div_less [rotated])
  moreover have "0 \<le> ?q" using assms(3,4) by (simp add: pos_imp_zdiv_nonneg_iff)
  then have "0 \<le> ?r0" using assms(2) by (simp add: pos_imp_zdiv_nonneg_iff)
  moreover have "0 \<le> ?r1" "?r1 < s1" "0 \<le> ?r2" "?r2 < s2" using assms by simp_all
  ultimately have "inRange (s0, s1, s2) (?r0, ?r1, ?r2)" by simp
  moreover have "fullRindex (s0, s1, s2) (?r0, ?r1, ?r2) = p" by simp
  ultimately show ?thesis by blast
qed

lemma markImage_fold:
  "foldl (markImage S r) (vec, done) mesh =
     (vec @ orbit S mesh r, foldl (\<lambda>d i. d[nat i := True]) done (orbit S mesh r))"
  by (induction mesh arbitrary: vec "done") (simp_all add: orbit_def markImage_def Let_def)

lemma mark_length [simp]: "length (foldl (\<lambda>d i. d[nat i := True]) done is) = length done"
  by (induction "is" arbitrary: "done") simp_all

lemma mark_nth:
  assumes "j < length done" and "\<forall>i\<in>set is. 0 \<le> i"
  shows "foldl (\<lambda>d i. d[nat i := True]) done is ! j \<longleftrightarrow> done ! j \<or> int j \<in> set is"
  using assms
proof (induction "is" arbitrary: "done")
  case Nil
  then show ?case by simp
next
  case (Cons i "is")
  have "nat i = j \<longleftrightarrow> int j = i" using Cons.prems(2) by auto
  with Cons show ?case by (auto simp: nth_list_update)
qed

lemma orbit_range:
  assumes "0 < s0" "0 < s1" "0 < s2" and "p \<in> set (orbit (s0, s1, s2) mesh r)"
  shows "0 \<le> p \<and> p < s0 * s1 * s2"
proof -
  from assms(4) obtain m where "p = imageIndex (s0, s1, s2) m r" by (auto simp: orbit_def)
  then have "p = fullRindex (s0, s1, s2) (act (s0, s1, s2) m r)"
    by (simp add: imageIndex_act [OF assms(1-3)])
  with fullRindex_bounds [OF act_inRange [OF assms(1-3)], of m r] show ?thesis by simp
qed

lemma index_nat:
  assumes "inRange (s0, s1, s2) r"
  shows "nat (fullRindex (s0, s1, s2) r) < gInfo_nr (s0, s1, s2)"
    and "int (nat (fullRindex (s0, s1, s2) r)) = fullRindex (s0, s1, s2) r"
  using fullRindex_bounds [OF assms] by (simp_all add: gInfo_nr_def)

lemma visitSeed_inv:
  assumes pos: "0 < s0" "0 < s1" "0 < s2" and r: "inRange (s0, s1, s2) r"
    and inv: "orbitInv (s0, s1, s2) mesh sst"
  shows "orbitInv (s0, s1, s2) mesh (visitSeed (s0, s1, s2) mesh sst r)"
proof -
  let ?S = "(s0, s1, s2)"
  obtain seeds vec "done" where sst: "sst = (seeds, vec, done)" by (cases sst) auto
  from inv have vec: "vec = concat (map (orbit ?S mesh) seeds)"
    and len: "length done = gInfo_nr ?S"
    and dn: "\<forall>j<gInfo_nr ?S. done ! j \<longleftrightarrow> int j \<in> set vec"
    and rng: "\<forall>r\<in>set seeds. inRange ?S r"
    and srt: "sorted_wrt (\<lambda>a b. fullRindex ?S b \<notin> set (orbit ?S mesh a)) seeds"
    by (simp_all add: orbitInv_def sst)
  show ?thesis
  proof (cases "done ! nat (fullRindex ?S r)")
    case True
    then show ?thesis using inv by (simp add: visitSeed_def visitPoint_def sst)
  next
    case False
    let ?done' = "foldl (\<lambda>d i. d[nat i := True]) done (orbit ?S mesh r)"
    have step: "visitSeed ?S mesh sst r = (seeds @ [r], vec @ orbit ?S mesh r, ?done')"
      using False by (simp add: visitSeed_def visitPoint_def sst markImage_fold)
    have nonneg: "\<forall>i\<in>set (orbit ?S mesh r). 0 \<le> i"
      using orbit_range [OF pos] by blast
    have dn': "?done' ! j \<longleftrightarrow> int j \<in> set (vec @ orbit ?S mesh r)" if "j < gInfo_nr ?S" for j
      using mark_nth [of j "done" "orbit ?S mesh r"] that len dn nonneg by auto
    from False index_nat [OF r] dn have "fullRindex ?S r \<notin> set vec" by auto
    then have new: "\<forall>a\<in>set seeds. fullRindex ?S r \<notin> set (orbit ?S mesh a)"
      by (auto simp: vec)
    show ?thesis
      unfolding step orbitInv_def
      using vec len dn' rng r srt new by (simp add: sorted_wrt_append)
  qed
qed

lemma visitSeed_fold_inv:
  assumes pos: "0 < s0" "0 < s1" "0 < s2" and "\<forall>r\<in>set rs. inRange (s0, s1, s2) r"
    and "orbitInv (s0, s1, s2) mesh sst"
  shows "orbitInv (s0, s1, s2) mesh (foldl (visitSeed (s0, s1, s2) mesh) sst rs)"
  using assms(4,5) by (induction rs arbitrary: sst) (simp_all add: visitSeed_inv [OF pos])

lemma visitSeed_fold_snd:
  "snd (foldl (visitSeed S mesh) sst rs) = foldl (visitPoint S mesh) (snd sst) rs"
  by (induction rs arbitrary: sst) (simp_all add: visitSeed_def split: prod.splits)

lemma visitSeed_grows:
  "set (fst (snd sst)) \<subseteq> set (fst (snd (visitSeed S mesh sst r)))"
  by (cases sst) (auto simp: visitSeed_def visitPoint_def markImage_fold split: prod.splits)

lemma visitSeed_fold_grows:
  "set (fst (snd sst)) \<subseteq> set (fst (snd (foldl (visitSeed S mesh) sst rs)))"
proof (induction rs arbitrary: sst)
  case Nil
  show ?case by simp
next
  case (Cons r rs)
  from visitSeed_grows [of sst S mesh r] Cons.IH [of "visitSeed S mesh sst r"]
  show ?case by auto
qed

lemma visitSeed_marks_point:
  assumes pos: "0 < s0" "0 < s1" "0 < s2" and r: "inRange (s0, s1, s2) r"
    and inv: "orbitInv (s0, s1, s2) mesh sst" and idm: "identity3 \<in> set mesh"
  shows "fullRindex (s0, s1, s2) r \<in> set (fst (snd (visitSeed (s0, s1, s2) mesh sst r)))"
proof -
  let ?S = "(s0, s1, s2)"
  obtain seeds vec "done" where sst: "sst = (seeds, vec, done)" by (cases sst) auto
  from inv have dn: "\<forall>j<gInfo_nr ?S. done ! j \<longleftrightarrow> int j \<in> set vec"
    by (simp add: orbitInv_def sst)
  show ?thesis
  proof (cases "done ! nat (fullRindex ?S r)")
    case True
    with dn index_nat [OF r] have "fullRindex ?S r \<in> set vec" by auto
    with True show ?thesis by (simp add: visitSeed_def visitPoint_def sst)
  next
    case False
    have "imageIndex ?S identity3 r = fullRindex ?S r"
      by (simp add: imageIndex_act [OF pos] act_identity [OF r])
    with idm have "fullRindex ?S r \<in> set (orbit ?S mesh r)"
      by (force simp: orbit_def)
    with False show ?thesis by (simp add: visitSeed_def visitPoint_def sst markImage_fold)
  qed
qed

lemma visitSeed_fold_marks:
  assumes pos: "0 < s0" "0 < s1" "0 < s2" and idm: "identity3 \<in> set mesh"
    and "\<forall>r\<in>set rs. inRange (s0, s1, s2) r" and "orbitInv (s0, s1, s2) mesh sst"
  shows "\<forall>r\<in>set rs. fullRindex (s0, s1, s2) r \<in> set (fst (snd (foldl (visitSeed (s0, s1, s2) mesh) sst rs)))"
  using assms(5,6)
proof (induction rs arbitrary: sst)
  case Nil
  show ?case by simp
next
  case (Cons r rs)
  let ?sst = "visitSeed (s0, s1, s2) mesh sst r"
  from Cons.prems have r: "inRange (s0, s1, s2) r" and rs: "\<forall>r\<in>set rs. inRange (s0, s1, s2) r"
    by simp_all
  have inv': "orbitInv (s0, s1, s2) mesh ?sst"
    using visitSeed_inv [OF pos r Cons.prems(2)] .
  have "fullRindex (s0, s1, s2) r \<in> set (fst (snd ?sst))"
    using visitSeed_marks_point [OF pos r Cons.prems(2) idm] .
  then have "fullRindex (s0, s1, s2) r \<in> set (fst (snd (foldl (visitSeed (s0, s1, s2) mesh) ?sst rs)))"
    using visitSeed_fold_grows [of ?sst "(s0, s1, s2)" mesh rs] by blast
  with Cons.IH [OF rs inv'] show ?case by simp
qed

lemma orbits_disjoint:
  assumes pos: "0 < s0" "0 < s1" "0 < s2" and grp: "actsAsGroup (s0, s1, s2) mesh"
    and a: "inRange (s0, s1, s2) a" and b: "inRange (s0, s1, s2) b"
    and notin: "fullRindex (s0, s1, s2) b \<notin> set (orbit (s0, s1, s2) mesh a)"
  shows "set (orbit (s0, s1, s2) mesh a) \<inter> set (orbit (s0, s1, s2) mesh b) = {}"
proof (rule ccontr)
  let ?S = "(s0, s1, s2)"
  assume "set (orbit ?S mesh a) \<inter> set (orbit ?S mesh b) \<noteq> {}"
  then obtain m1 m2 where m: "m1 \<in> set mesh" "m2 \<in> set mesh"
    and eq: "imageIndex ?S m1 a = imageIndex ?S m2 b"
    by (auto simp: orbit_def)
  from eq have "fullRindex ?S (act ?S m1 a) = fullRindex ?S (act ?S m2 b)"
    by (simp add: imageIndex_act [OF pos])
  then have same: "act ?S m1 a = act ?S m2 b"
    by (rule fullRindex_inj [OF act_inRange [OF pos] act_inRange [OF pos]])
  from grp m(2) obtain m2' where m2': "m2' \<in> set mesh"
    and undo: "\<forall>r\<in>set (gridPoints ?S). act ?S m2' (act ?S m2 r) = r"
    unfolding actsAsGroup_def list_all_iff list_ex_iff by blast
  from grp m2' m(1) obtain m3 where m3: "m3 \<in> set mesh"
    and compose: "\<forall>r\<in>set (gridPoints ?S). act ?S m2' (act ?S m1 r) = act ?S m3 r"
    unfolding actsAsGroup_def list_all_iff list_ex_iff by blast
  from a b have "a \<in> set (gridPoints ?S)" "b \<in> set (gridPoints ?S)"
    by (simp_all add: gridPoints_set)
  with undo compose same have "b = act ?S m3 a" by metis
  then have "fullRindex ?S b = imageIndex ?S m3 a"
    by (simp add: imageIndex_act [OF pos])
  with m3 have "fullRindex ?S b \<in> set (orbit ?S mesh a)" by (auto simp: orbit_def)
  with notin show False by simp
qed

lemma length_concat_orbits: "length (concat (map (orbit S mesh) seeds)) = length seeds * length mesh"
  by (induction seeds) (simp_all add: orbit_def)

text \<open>The orbit table for mesh matrices that act on the grid as a group.\<close>

lemma initSymmIndex_orbit_table_action:
  assumes S: "gInfo_S e = (s0, s1, s2)" and pos: "0 < s0" "0 < s1" "0 < s2"
    and order: "1 < length (sym this)"
    and mesh: "length (symMesh this) = length (sym this)"
    and grp: "actsAsGroup (s0, s1, s2) (symMesh this)"
  shows "(let S = (s0, s1, s2); mesh = symMesh this;
              table = symmIndex (initSymmIndex this e); seeds = orbitSeeds S mesh
          in table = concat (map (orbit S mesh) seeds) \<and>
             length table = length seeds * length (sym this) \<and>
             set table = {0 ..< int (gInfo_nr S)} \<and>
             (\<forall>i<length seeds. \<forall>j<length seeds. i < j \<longrightarrow>
                 fullRindex S (seeds ! j) \<notin> set (orbit S mesh (seeds ! i))) \<and>
             (\<forall>i<length seeds. \<forall>j<length seeds. i \<noteq> j \<longrightarrow>
                 set (orbit S mesh (seeds ! i)) \<inter> set (orbit S mesh (seeds ! j)) = {}) \<and>
             (\<forall>p\<in>{0 ..< int (gInfo_nr S)}. \<exists>!i. i < length seeds \<and> p \<in> set (orbit S mesh (seeds ! i))))"
proof -
  let ?S = "(s0, s1, s2)"
  define mesh where "mesh = symMesh this"
  define final where "final = foldl (visitSeed ?S mesh) ([], [], replicate (gInfo_nr ?S) False) (gridPoints ?S)"
  define seeds where "seeds = fst final"
  define table where "table = fst (snd final)"
  have seeds_eq: "orbitSeeds ?S mesh = seeds"
    by (simp add: orbitSeeds_def seeds_def final_def)
  have "snd final = foldl (visitPoint ?S mesh) ([], replicate (gInfo_nr ?S) False) (gridPoints ?S)"
    by (simp add: final_def visitSeed_fold_snd)
  then have table_eq: "symmIndex (initSymmIndex this e) = table"
    using order S by (simp add: initSymmIndex_def table_def mesh_def)
  have idm: "identity3 \<in> set mesh"
    using grp by (auto simp: actsAsGroup_def list_ex_iff mesh_def)
  have pts: "\<forall>r\<in>set (gridPoints ?S). inRange ?S r"
    by (simp add: gridPoints_set)
  have init: "orbitInv ?S mesh ([], [], replicate (gInfo_nr ?S) False)"
    by (simp add: orbitInv_def)
  have inv: "orbitInv ?S mesh (seeds, table, snd (snd final))"
    using visitSeed_fold_inv [OF pos pts init] by (simp add: final_def seeds_def table_def)
  then have c: "table = concat (map (orbit ?S mesh) seeds)"
    and rng: "\<forall>r\<in>set seeds. inRange ?S r"
    and srt: "sorted_wrt (\<lambda>a b. fullRindex ?S b \<notin> set (orbit ?S mesh a)) seeds"
    by (simp_all add: orbitInv_def)
  have a: "length table = length seeds * length (sym this)"
    using mesh by (simp add: c length_concat_orbits mesh_def)
  have "0 < s0 * s1 * s2" using pos by simp
  then have nr: "int (gInfo_nr ?S) = s0 * s1 * s2" by (simp add: gInfo_nr_def)
  have sub: "set table \<subseteq> {0 ..< int (gInfo_nr ?S)}"
  proof
    fix p assume "p \<in> set table"
    then obtain r where "p \<in> set (orbit ?S mesh r)" by (auto simp: c)
    from orbit_range [OF pos this] show "p \<in> {0 ..< int (gInfo_nr ?S)}"
      by (simp add: nr)
  qed
  have sup: "{0 ..< int (gInfo_nr ?S)} \<subseteq> set table"
  proof
    fix p assume "p \<in> {0 ..< int (gInfo_nr ?S)}"
    then have "0 \<le> p" "p < s0 * s1 * s2" by (simp_all add: nr)
    from fullRindex_surj [OF pos this] obtain r where r: "inRange ?S r" "fullRindex ?S r = p"
      by blast
    then have "r \<in> set (gridPoints ?S)" by (simp add: gridPoints_set)
    with visitSeed_fold_marks [OF pos idm pts init] r(2) show "p \<in> set table"
      by (auto simp: table_def final_def)
  qed
  have later: "fullRindex ?S (seeds ! j) \<notin> set (orbit ?S mesh (seeds ! i))"
    if "i < j" "j < length seeds" for i j
    using srt that by (simp add: sorted_wrt_iff_nth_less)
  have disj: "set (orbit ?S mesh (seeds ! i)) \<inter> set (orbit ?S mesh (seeds ! j)) = {}"
    if "i < length seeds" "j < length seeds" "i \<noteq> j" for i j
  proof -
    have *: "set (orbit ?S mesh (seeds ! i')) \<inter> set (orbit ?S mesh (seeds ! j')) = {}"
      if "i' < j'" "j' < length seeds" for i' j'
    proof -
      from that rng have "inRange ?S (seeds ! i')" "inRange ?S (seeds ! j')" by simp_all
      from orbits_disjoint [OF pos grp [folded mesh_def] this later [OF that]] show ?thesis .
    qed
    from that consider "i < j" | "j < i" by linarith
    then show ?thesis
    proof cases
      case 1
      with that * show ?thesis by simp
    next
      case 2
      with that * [of j i] show ?thesis by (simp add: Int_commute)
    qed
  qed
  have one: "\<exists>!i. i < length seeds \<and> p \<in> set (orbit ?S mesh (seeds ! i))"
    if "p \<in> {0 ..< int (gInfo_nr ?S)}" for p
  proof -
    from that sup have "p \<in> set table" by blast
    then obtain r where "r \<in> set seeds" "p \<in> set (orbit ?S mesh r)" by (auto simp: c)
    then obtain i where i: "i < length seeds" "p \<in> set (orbit ?S mesh (seeds ! i))"
      by (auto simp: in_set_conv_nth)
    moreover have "j = i" if "j < length seeds" "p \<in> set (orbit ?S mesh (seeds ! j))" for j
    proof (rule ccontr)
      assume "j \<noteq> i"
      from disj [OF that(1) i(1) this] that(2) i(2) show False by blast
    qed
    ultimately show ?thesis by blast
  qed
  have all: "table = concat (map (orbit ?S mesh) seeds) \<and>
             length table = length seeds * length (sym this) \<and>
             set table = {0 ..< int (gInfo_nr ?S)} \<and>
             (\<forall>i<length seeds. \<forall>j<length seeds. i < j \<longrightarrow>
                 fullRindex ?S (seeds ! j) \<notin> set (orbit ?S mesh (seeds ! i))) \<and>
             (\<forall>i<length seeds. \<forall>j<length seeds. i \<noteq> j \<longrightarrow>
                 set (orbit ?S mesh (seeds ! i)) \<inter> set (orbit ?S mesh (seeds ! j)) = {}) \<and>
             (\<forall>p\<in>{0 ..< int (gInfo_nr ?S)}. \<exists>!i. i < length seeds \<and> p \<in> set (orbit ?S mesh (seeds ! i)))"
  proof (intro conjI)
    show "table = concat (map (orbit ?S mesh) seeds)" by (rule c)
    show "length table = length seeds * length (sym this)" by (rule a)
    show "set table = {0 ..< int (gInfo_nr ?S)}" using sub sup by (rule equalityI)
    show "\<forall>i<length seeds. \<forall>j<length seeds. i < j \<longrightarrow>
            fullRindex ?S (seeds ! j) \<notin> set (orbit ?S mesh (seeds ! i))"
      using later by simp
    show "\<forall>i<length seeds. \<forall>j<length seeds. i \<noteq> j \<longrightarrow>
            set (orbit ?S mesh (seeds ! i)) \<inter> set (orbit ?S mesh (seeds ! j)) = {}"
      using disj by simp
    show "\<forall>p\<in>{0 ..< int (gInfo_nr ?S)}. \<exists>!i. i < length seeds \<and> p \<in> set (orbit ?S mesh (seeds ! i))"
      using one by (rule ballI)
  qed
  show ?thesis
    unfolding Let_def table_eq mesh_def [symmetric] seeds_eq
    by (rule all)
qed

text \<open>The mesh matrices of a group of matrices act on the grid as a group.\<close>

lemma less3: "i < 3 \<longleftrightarrow> i = 0 \<or> i = 1 \<or> i = (2::nat)"
  by auto

lemma vec_eqI:
  assumes "\<And>i. i < 3 \<Longrightarrow> comp3 u i = comp3 v i"
  shows "u = v"
proof -
  obtain a b c where u: "u = (a, b, c)" by (cases u) auto
  obtain x y z where v: "v = (x, y, z)" by (cases v) auto
  from assms [of 0] assms [of 1] assms [of 2] show ?thesis by (simp add: u v)
qed

lemma mat_eqI:
  assumes "\<And>i j. i < 3 \<Longrightarrow> j < 3 \<Longrightarrow> entry a i j = entry b i j"
  shows "a = b"
proof -
  obtain a0 a1 a2 where a: "a = (a0, a1, a2)" by (cases a) auto
  obtain b0 b1 b2 where b: "b = (b0, b1, b2)" by (cases b) auto
  have "row3 a i = row3 b i" if "i < 3" for i
    by (rule vec_eqI) (use assms [OF that] in \<open>simp add: entry_def\<close>)
  from this [of 0] this [of 1] this [of 2] show ?thesis by (simp add: a b)
qed

lemma comp3_mulMVi:
  "i < 3 \<Longrightarrow> comp3 (mulMVi m v) i =
     entry m i 0 * comp3 v 0 + entry m i 1 * comp3 v 1 + entry m i 2 * comp3 v 2"
proof -
  obtain a b c d e f g h k where m: "m = ((a, b, c), (d, e, f), (g, h, k))" by (metis prod_cases3)
  obtain x y z where v: "v = (x, y, z)" by (cases v) auto
  show "i < 3 \<Longrightarrow> ?thesis" by (auto simp: less3 m v entry_def)
qed

lemma comp3_wrapPoint: "i < 3 \<Longrightarrow> comp3 (wrapPoint S v) i = comp3 v i mod comp3 S i"
proof -
  obtain s0 s1 s2 where S: "S = (s0, s1, s2)" by (cases S) auto
  obtain x y z where v: "v = (x, y, z)" by (cases v) auto
  show "i < 3 \<Longrightarrow> ?thesis" by (auto simp: less3 S v)
qed

lemma entry_mulMM:
  "i < 3 \<Longrightarrow> j < 3 \<Longrightarrow> entry (mulMM a b) i j =
     entry a i 0 * entry b 0 j + entry a i 1 * entry b 1 j + entry a i 2 * entry b 2 j"
proof -
  obtain a0 a1 a2 a3 a4 a5 a6 a7 a8 where a: "a = ((a0, a1, a2), (a3, a4, a5), (a6, a7, a8))" by (metis prod_cases3)
  obtain b0 b1 b2 b3 b4 b5 b6 b7 b8 where b: "b = ((b0, b1, b2), (b3, b4, b5), (b6, b7, b8))" by (metis prod_cases3)
  show "i < 3 \<Longrightarrow> j < 3 \<Longrightarrow> ?thesis"
    by (auto simp: less3 a b entry_def mulMM_def mult.commute)
qed

lemma entry_gridSpaceMatrix:
  "i < 3 \<Longrightarrow> j < 3 \<Longrightarrow> entry (gridSpaceMatrix S m) i j = (comp3 S i * entry m i j) div comp3 S j"
  by (auto simp: less3 gridSpaceMatrix_def entry_def Let_def)

lemma commensurate_entry:
  "commensurate S m \<Longrightarrow> i < 3 \<Longrightarrow> j < 3 \<Longrightarrow> comp3 S j dvd comp3 S i * entry m i j"
  by (auto simp: less3 commensurate_def)

lemma gridSpaceMatrix_times:
  assumes "commensurate S m" "i < 3" "j < 3"
  shows "entry (gridSpaceMatrix S m) i j * comp3 S j = comp3 S i * entry m i j"
  using commensurate_entry [OF assms] by (simp add: entry_gridSpaceMatrix assms)

lemma mulMVi_mulMM: "mulMVi a (mulMVi b r) = mulMVi (mulMM a b) r"
  by (rule vec_eqI) (simp add: comp3_mulMVi entry_mulMM algebra_simps)

lemma gridSpaceMatrix_mulMM:
  assumes pos: "\<And>j. j < 3 \<Longrightarrow> comp3 S j \<noteq> 0"
    and ca: "commensurate S a" and cb: "commensurate S b" and cc: "commensurate S (mulMM a b)"
  shows "mulMM (gridSpaceMatrix S a) (gridSpaceMatrix S b) = gridSpaceMatrix S (mulMM a b)"
proof (rule mat_eqI)
  fix i j :: nat
  assume i: "i < 3" and j: "j < 3"
  let ?A = "gridSpaceMatrix S a" and ?B = "gridSpaceMatrix S b"
  have B: "entry ?B k j * comp3 S j = comp3 S k * entry b k j" if "k < 3" for k
    using gridSpaceMatrix_times [OF cb that j] .
  have A: "entry ?A i k * comp3 S k = comp3 S i * entry a i k" if "k < 3" for k
    using gridSpaceMatrix_times [OF ca i that] .
  have summand: "entry ?A i k * entry ?B k j * comp3 S j = comp3 S i * (entry a i k * entry b k j)"
    if "k < 3" for k
  proof -
    have "entry ?A i k * entry ?B k j * comp3 S j = entry ?A i k * (entry ?B k j * comp3 S j)"
      by (simp add: mult.assoc)
    also have "\<dots> = (entry ?A i k * comp3 S k) * entry b k j"
      by (simp add: B [OF that] mult.assoc)
    also have "\<dots> = comp3 S i * (entry a i k * entry b k j)"
      by (simp add: A [OF that] mult.assoc)
    finally show ?thesis .
  qed
  have "entry (mulMM ?A ?B) i j * comp3 S j = comp3 S i * entry (mulMM a b) i j"
    using summand [of 0] summand [of 1] summand [of 2]
    by (simp add: entry_mulMM i j distrib_right distrib_left)
  also have "\<dots> = entry (gridSpaceMatrix S (mulMM a b)) i j * comp3 S j"
    using gridSpaceMatrix_times [OF cc i j] by simp
  finally show "entry (mulMM ?A ?B) i j = entry (gridSpaceMatrix S (mulMM a b)) i j"
    using pos [OF j] by simp
qed

lemma mod_scaled:
  assumes "(s::int) dvd A * t"
  shows "(A * (x mod t)) mod s = (A * x) mod s"
proof -
  from assms obtain q where q: "A * t = s * q" by (auto simp: dvd_def)
  have "A * x = A * (t * (x div t) + x mod t)" by simp
  also have "\<dots> = (A * t) * (x div t) + A * (x mod t)"
    by (simp only: distrib_left mult.assoc)
  also have "\<dots> = s * (q * (x div t)) + A * (x mod t)"
    by (simp only: q mult.assoc)
  finally have "A * x = s * (q * (x div t)) + A * (x mod t)" .
  then show ?thesis by (metis mod_mult_self4)
qed

lemma act_wrapPoint:
  assumes "\<And>i j. i < 3 \<Longrightarrow> j < 3 \<Longrightarrow> comp3 S i dvd entry A i j * comp3 S j"
  shows "act S A (wrapPoint S v) = act S A v"
proof (rule vec_eqI)
  fix i :: nat
  assume i: "i < 3"
  have t: "(entry A i j * (comp3 v j mod comp3 S j)) mod comp3 S i = (entry A i j * comp3 v j) mod comp3 S i"
    if "j < 3" for j
    using mod_scaled [OF assms [OF i that]] .
  have "(entry A i 0 * (comp3 v 0 mod comp3 S 0) + entry A i 1 * (comp3 v 1 mod comp3 S 1)
          + entry A i 2 * (comp3 v 2 mod comp3 S 2)) mod comp3 S i
      = (entry A i 0 * comp3 v 0 + entry A i 1 * comp3 v 1 + entry A i 2 * comp3 v 2) mod comp3 S i"
    using t [of 0] t [of 1] t [of 2] by (metis (no_types, lifting) mod_add_cong less3)
  then show "comp3 (act S A (wrapPoint S v)) i = comp3 (act S A v) i"
    by (simp add: act_def comp3_wrapPoint comp3_mulMVi i)
qed

lemma gridSpaceMatrix_dvd:
  assumes "commensurate S m" "i < 3" "j < 3"
  shows "comp3 S i dvd entry (gridSpaceMatrix S m) i j * comp3 S j"
  using gridSpaceMatrix_times [OF assms] by simp

lemma act_compose:
  assumes pos: "\<And>j. j < 3 \<Longrightarrow> comp3 S j \<noteq> 0"
    and ca: "commensurate S a" and cb: "commensurate S b" and cc: "commensurate S (mulMM a b)"
  shows "act S (gridSpaceMatrix S a) (act S (gridSpaceMatrix S b) r) = act S (gridSpaceMatrix S (mulMM a b)) r"
proof -
  have "act S (gridSpaceMatrix S a) (act S (gridSpaceMatrix S b) r)
      = act S (gridSpaceMatrix S a) (mulMVi (gridSpaceMatrix S b) r)"
    unfolding act_def [of S "gridSpaceMatrix S b"]
    by (rule act_wrapPoint) (rule gridSpaceMatrix_dvd [OF ca])
  also have "\<dots> = act S (mulMM (gridSpaceMatrix S a) (gridSpaceMatrix S b)) r"
    by (simp add: act_def mulMVi_mulMM)
  also have "\<dots> = act S (gridSpaceMatrix S (mulMM a b)) r"
    by (simp add: gridSpaceMatrix_mulMM [OF pos ca cb cc])
  finally show ?thesis .
qed

lemma gridSpaceMatrix_identity:
  assumes "0 < s0" "0 < s1" "0 < s2"
  shows "gridSpaceMatrix (s0, s1, s2) identity3 = identity3"
  using assms by (simp add: gridSpaceMatrix_def identity3_def entry_def)

lemma commensurate_identity: "commensurate S identity3"
  by (cases S) (simp add: commensurate_def identity3_def entry_def)

lemma group_acts:
  assumes pos: "0 < s0" "0 < s1" "0 < s2"
    and mesh: "meshMatrices (s0, s1, s2) ms = Inr mesh"
    and grp: "isGroup ms"
  shows "actsAsGroup (s0, s1, s2) mesh"
proof -
  let ?S = "(s0, s1, s2)"
  let ?G = "gridSpaceMatrix ?S"
  from mesh have com: "\<forall>m\<in>set ms. commensurate ?S m" and mesh_eq: "mesh = map ?G ms"
    using meshMatrices_eq [OF pos, of ms] by (auto simp: list_all_iff split: if_splits)
  have nz: "comp3 ?S j \<noteq> 0" if "j < 3" for j
    using pos that by (auto simp: less3)
  from grp have idm: "identity3 \<in> set ms"
    and invs: "\<forall>a\<in>set ms. \<exists>b\<in>set ms. mulMM b a = identity3"
    and closed: "\<forall>a\<in>set ms. \<forall>b\<in>set ms. mulMM a b \<in> set ms"
    by (auto simp: isGroup_def list_all_iff list_ex_iff)
  have 1: "list_ex (\<lambda>m. m = identity3) mesh"
    using idm gridSpaceMatrix_identity [OF pos] by (force simp: mesh_eq list_ex_iff)
  have 2: "\<exists>m'\<in>set mesh. \<forall>r\<in>set (gridPoints ?S). act ?S m' (act ?S m r) = r" if "m \<in> set mesh" for m
  proof -
    from that obtain a where a: "a \<in> set ms" "m = ?G a" by (auto simp: mesh_eq)
    with invs obtain b where b: "b \<in> set ms" "mulMM b a = identity3" by blast
    have "act ?S (?G b) (act ?S (?G a) r) = r" if "r \<in> set (gridPoints ?S)" for r
    proof -
      have "act ?S (?G b) (act ?S (?G a) r) = act ?S (?G (mulMM b a)) r"
        using act_compose [OF nz, of b a r] com a(1) b commensurate_identity by simp
      also have "\<dots> = r"
        using that by (simp add: b(2) gridSpaceMatrix_identity [OF pos] act_identity gridPoints_set)
      finally show ?thesis .
    qed
    then have "\<forall>r\<in>set (gridPoints ?S). act ?S (?G b) (act ?S m r) = r"
      unfolding a(2) by blast
    moreover have "?G b \<in> set mesh" using b(1) by (simp add: mesh_eq)
    ultimately show ?thesis by blast
  qed
  have 3: "\<exists>m3\<in>set mesh. \<forall>r\<in>set (gridPoints ?S). act ?S m1 (act ?S m2 r) = act ?S m3 r"
    if "m1 \<in> set mesh" "m2 \<in> set mesh" for m1 m2
  proof -
    from that obtain a b where ab: "a \<in> set ms" "m1 = ?G a" "b \<in> set ms" "m2 = ?G b"
      by (auto simp: mesh_eq)
    with closed have c: "mulMM a b \<in> set ms" by blast
    have "act ?S (?G a) (act ?S (?G b) r) = act ?S (?G (mulMM a b)) r" for r
      using act_compose [OF nz, of a b r] com ab(1,3) c by simp
    then have "\<forall>r\<in>set (gridPoints ?S). act ?S m1 (act ?S m2 r) = act ?S (?G (mulMM a b)) r"
      unfolding ab(2,4) by blast
    moreover have "?G (mulMM a b) \<in> set mesh" using c by (simp add: mesh_eq)
    ultimately show ?thesis by blast
  qed
  show ?thesis
    unfolding actsAsGroup_def list_all_iff list_ex_iff
    using 1 2 3 by (simp add: list_ex_iff)
qed

text \<open>
  C7: after \<open>checkFFTbox\<close> has set the mesh matrices of a group of order above 1,
  \<open>initSymmIndex\<close> leaves an orbit table that is the concatenation, seed by seed in the order
  visited, of one destination index per operation in the order of the operations; its length
  is the number of seeds times the group order; the indices in it are exactly those of the
  grid, \<open>0\<close> to \<open>nr - 1\<close>; no seed lies in the orbit of an earlier seed; and the orbits of
  two different seeds are disjoint: every grid point belongs to exactly one orbit.
\<close>

theorem initSymmIndex_orbit_table:
  assumes S: "gInfo_S e = (s0, s1, s2)" and pos: "0 < s0" "0 < s1" "0 < s2"
    and order: "1 < length (sym this)"
    and mesh: "meshMatrices (s0, s1, s2) (sym this) = Inr (symMesh this)"
    and grp: "isGroup (sym this)"
  shows "(let S = (s0, s1, s2); mesh = symMesh this;
              table = symmIndex (initSymmIndex this e); seeds = orbitSeeds S mesh
          in table = concat (map (orbit S mesh) seeds) \<and>
             length table = length seeds * length (sym this) \<and>
             set table = {0 ..< int (gInfo_nr S)} \<and>
             (\<forall>i<length seeds. \<forall>j<length seeds. i < j \<longrightarrow>
                 fullRindex S (seeds ! j) \<notin> set (orbit S mesh (seeds ! i))) \<and>
             (\<forall>i<length seeds. \<forall>j<length seeds. i \<noteq> j \<longrightarrow>
                 set (orbit S mesh (seeds ! i)) \<inter> set (orbit S mesh (seeds ! j)) = {}) \<and>
             (\<forall>p\<in>{0 ..< int (gInfo_nr S)}. \<exists>!i. i < length seeds \<and> p \<in> set (orbit S mesh (seeds ! i))))"
proof -
  have "symMesh this = map (gridSpaceMatrix (s0, s1, s2)) (sym this)"
    using meshMatrices_eq [OF pos, of "sym this"] mesh by (simp split: if_splits)
  then have len: "length (symMesh this) = length (sym this)" by simp
  have grid: "actsAsGroup (s0, s1, s2) (symMesh this)"
    using group_acts [OF pos mesh grp] .
  show ?thesis
    by (rule initSymmIndex_orbit_table_action [OF S pos order len grid])
qed

theorem initSymmIndex_orbit_table_witness:
  "gInfo_S (exampleEverything (2, 2, 1) []) = (2, 2, 1) \<and>
   1 < length (sym gridExampleSymmetries) \<and>
   meshMatrices (2, 2, 1) (sym gridExampleSymmetries) = Inr (symMesh gridExampleSymmetries) \<and>
   isGroup (sym gridExampleSymmetries) \<and>
   orbitSeeds (2, 2, 1) (symMesh gridExampleSymmetries) = [(0, 0, 0), (0, 1, 0), (1, 1, 0)] \<and>
   symmIndex (initSymmIndex gridExampleSymmetries (exampleEverything (2, 2, 1) [])) = [0, 0, 1, 2, 3, 3]"
proof -
  have h1: "gInfo_S (exampleEverything (2, 2, 1) []) = (2, 2, 1)"
    by (simp add: exampleEverything_def)
  have h2: "1 < length (sym gridExampleSymmetries)"
    by (simp add: gridExampleSymmetries_def exampleSymmetries_def)
  have h3: "meshMatrices (2, 2, 1) (sym gridExampleSymmetries) = Inr (symMesh gridExampleSymmetries)"
    by code_simp
  have h4: "isGroup (sym gridExampleSymmetries)"
    by code_simp
  have v1: "orbitSeeds (2, 2, 1) (symMesh gridExampleSymmetries) = [(0, 0, 0), (0, 1, 0), (1, 1, 0)]"
    by code_simp
  have v2: "symmIndex (initSymmIndex gridExampleSymmetries (exampleEverything (2, 2, 1) [])) = [0, 0, 1, 2, 3, 3]"
    by code_simp
  have p: "(0::int) < 2" "(0::int) < 1" by simp_all
  show ?thesis
    using initSymmIndex_orbit_table [OF h1 p(1) p(1) p(2) h2 h3 h4] h1 h2 h3 h4 v1 v2 by simp
qed

end
